theory Spec2Isabelle
  imports Main "HOL-Library.Word" "HOL-Library.Signed_Division" "HOL-Library.Log_Nat"
begin

section \<open>Counted loops\<close>

text \<open>
  Every loop of the two programs is a counted loop
  \<^verbatim>\<open>for (int i = lo; i < hi; i++) body\<close> whose bounds are fixed before the loop starts
  and whose counter the body never assigns.  \<open>for_loop lo hi body\<close> runs \<open>body lo\<close>,
  \<open>body (lo + 1)\<close>, ... , \<open>body (hi - 1)\<close> on the state, in this order, and does nothing
  when \<open>hi \<le> lo\<close>.
\<close>

definition for_loop :: "nat \<Rightarrow> nat \<Rightarrow> (nat \<Rightarrow> 's \<Rightarrow> 's) \<Rightarrow> 's \<Rightarrow> 's" where
  "for_loop lo hi body s = fold body [lo..<hi] s"

section \<open>Row partition of the distributed program\<close>

text \<open>
  \<^verbatim>\<open>src/MPI/image_proc_mpi.c\<close>, \<open>main\<close>, lines 86 to 93: every rank computes its own
  number of rows (\<open>nprocs\<close> is the communicator size, \<^verbatim>\<open>size\<close> in the source).  The C operators \<^verbatim>\<open>/\<close> and \<^verbatim>\<open>%\<close> on \<^verbatim>\<open>int\<close> truncate towards zero; they
  are \<open>sdiv\<close> and \<open>smod\<close>.
\<close>

definition rows_per_process :: "int \<Rightarrow> int \<Rightarrow> int" where
  "rows_per_process height nprocs = height sdiv nprocs"

definition remainder :: "int \<Rightarrow> int \<Rightarrow> int" where
  "remainder height nprocs = height smod nprocs"

definition local_height_of :: "int \<Rightarrow> int \<Rightarrow> int \<Rightarrow> int" where
  "local_height_of height nprocs rank =
     (let local_height = rows_per_process height nprocs
      in if rank < remainder height nprocs then local_height + 1 else local_height)"

text \<open>
  Lines 99 to 112: rank 0 fills the arrays \<^verbatim>\<open>sendcounts\<close> and \<^verbatim>\<open>displs\<close> (byte counts and
  byte offsets of the bands).  The arrays come from \<^verbatim>\<open>malloc\<close>; each cell is written
  before it is read, the model starts them at 0.
\<close>

record partition_state =
  sendcounts :: "int list"
  displs :: "int list"
  offset :: int

definition partition_step :: "int \<Rightarrow> int \<Rightarrow> int \<Rightarrow> int \<Rightarrow> nat \<Rightarrow> partition_state \<Rightarrow> partition_state" where
  "partition_step height nprocs width channels i s =
     (let rows = rows_per_process height nprocs;
          rows = (if int i < remainder height nprocs then rows + 1 else rows);
          s = s\<lparr>sendcounts := (sendcounts s)[i := rows * width * channels]\<rparr>;
          s = s\<lparr>displs := (displs s)[i := offset s]\<rparr>
      in s\<lparr>offset := offset s + sendcounts s ! i\<rparr>)"

definition partition_init :: "int \<Rightarrow> partition_state" where
  "partition_init nprocs =
     \<lparr>sendcounts = replicate (nat nprocs) 0, displs = replicate (nat nprocs) 0, offset = 0\<rparr>"

definition compute_displs :: "int \<Rightarrow> int \<Rightarrow> int \<Rightarrow> int \<Rightarrow> partition_state" where
  "compute_displs height nprocs width channels =
     for_loop 0 (nat nprocs) (partition_step height nprocs width channels) (partition_init nprocs)"

section \<open>Floating-point arithmetic\<close>

text \<open>
  The filters compute in \<^verbatim>\<open>double\<close> (grayscale) and \<^verbatim>\<open>float\<close> (blur, edge) and cast
  the result to \<^verbatim>\<open>unsigned char\<close>.  A finite floating-point number is a pair of an integer
  significand and an exponent of two; an operation is the exact operation followed by one
  rounding to \<open>p\<close> significant bits, to nearest, ties to even (\<open>p = 53\<close> for
  \<^verbatim>\<open>double\<close>, \<open>p = 24\<close> for \<^verbatim>\<open>float\<close>), each operation of an expression in its own
  type and in the order the C grammar gives.  The exponent range is not modelled: every
  non-zero intermediate value of the filters lies between \<open>2 powi -4\<close> and \<open>2 powi 22\<close>.
\<close>

datatype fp = Fp (mant: int) (expo: int)

definition fval :: "fp \<Rightarrow> real" where
  "fval x = real_of_int (mant x) * 2 powi expo x"

definition rne :: "nat \<Rightarrow> fp \<Rightarrow> fp" where
  "rne p x =
     (let m = mant x; n = nat (bitlen \<bar>m\<bar>)
      in if n \<le> p then x
         else let s = n - p;
                  q = \<bar>m\<bar> div 2 ^ s;
                  r = \<bar>m\<bar> mod 2 ^ s;
                  half = 2 ^ (s - 1);
                  q = (if half < r \<or> (r = half \<and> odd q) then q + 1 else q)
              in Fp (sgn m * q) (expo x + int s))"

definition fp_add :: "nat \<Rightarrow> fp \<Rightarrow> fp \<Rightarrow> fp" where
  "fp_add p x y =
     (let e = min (expo x) (expo y)
      in rne p (Fp (mant x * 2 ^ nat (expo x - e) + mant y * 2 ^ nat (expo y - e)) e))"

definition fp_mul :: "nat \<Rightarrow> fp \<Rightarrow> fp \<Rightarrow> fp" where
  "fp_mul p x y = rne p (Fp (mant x * mant y) (expo x + expo y))"

definition fp_of_int :: "nat \<Rightarrow> int \<Rightarrow> fp" where
  "fp_of_int p k = rne p (Fp k 0)"

definition fp_less :: "fp \<Rightarrow> fp \<Rightarrow> bool" where
  "fp_less x y =
     (let e = min (expo x) (expo y)
      in mant x * 2 ^ nat (expo x - e) < mant y * 2 ^ nat (expo y - e))"

text \<open>Conversion to an integer type drops the fraction (towards zero).\<close>

definition fp_trunc :: "fp \<Rightarrow> int" where
  "fp_trunc x =
     (if 0 \<le> expo x then mant x * 2 ^ nat (expo x)
      else sgn (mant x) * (\<bar>mant x\<bar> div 2 ^ nat (- expo x)))"

text \<open>
  \<^verbatim>\<open>sqrt\<close> of the C library, correctly rounded: the integer square root of the significand
  scaled to more than \<open>2 * p + 2\<close> bits, with a sticky bit for an inexact root, rounded
  once.  The argument is never negative in the filters.
\<close>

function isqrt :: "int \<Rightarrow> int" where
  "isqrt n =
     (if n < 2 then n
      else let r = 2 * isqrt (n div 4) in if (r + 1) * (r + 1) \<le> n then r + 1 else r)"
  by pat_completeness auto
termination
  by (relation "measure nat") auto

definition fp_sqrt :: "nat \<Rightarrow> fp \<Rightarrow> fp" where
  "fp_sqrt p x =
     (if mant x \<le> 0 then Fp 0 0
      else let k = 2 * int p + 2 + (if even (expo x) then 0 else 1);
               M = mant x * 2 ^ nat k;
               s = isqrt M;
               sticky = (if s * s = M then 0 else 1)
           in rne p (Fp (2 * s + sticky) ((expo x - k) div 2 - 1)))"

section \<open>Pixel buffers\<close>

type_synonym byte = "8 word"

text \<open>
  The cast \<^verbatim>\<open>(unsigned char)\<close> of a floating-point value (the value is in range at every
  cast of the filters).
\<close>

definition to_uchar :: "fp \<Rightarrow> byte" where
  "to_uchar x = word_of_int (fp_trunc x)"

text \<open>
  The shared-memory program works on two \<^verbatim>\<open>Image\<close> structures whose \<^verbatim>\<open>data\<close> fields point
  to heap buffers.  The heap maps a pointer to the buffer it points to; \<open>heap_write\<close> is
  the assignment \<^verbatim>\<open>p[i] = v\<close>.
\<close>

type_synonym ptr = nat
type_synonym heap = "ptr \<Rightarrow> byte list"

record Image =
  img_data :: ptr
  img_width :: nat
  img_height :: nat
  img_channels :: nat

definition heap_write :: "heap \<Rightarrow> ptr \<Rightarrow> nat \<Rightarrow> byte \<Rightarrow> heap" where
  "heap_write h p i v = h(p := (h p)[i := v])"

section \<open>Grayscale\<close>

text \<open>
  The expression \<^verbatim>\<open>0.299 * r + 0.587 * g + 0.114 * b\<close> of both programs: the three
  constants are the doubles nearest to the decimal literals, the bytes are converted
  exactly, and the two additions associate to the left.
\<close>

definition c_0299 :: fp where "c_0299 = Fp 5386305154335113 (- 54)"
definition c_0587 :: fp where "c_0587 = Fp 2643612981266481 (- 52)"
definition c_0114 :: fp where "c_0114 = Fp 8214565720323785 (- 56)"

definition gray_sum :: "byte \<Rightarrow> byte \<Rightarrow> byte \<Rightarrow> fp" where
  "gray_sum r g b =
     fp_add 53 (fp_add 53 (fp_mul 53 c_0299 (fp_of_int 53 (uint r)))
                          (fp_mul 53 c_0587 (fp_of_int 53 (uint g))))
               (fp_mul 53 c_0114 (fp_of_int 53 (uint b)))"

definition gray_of :: "byte \<Rightarrow> byte \<Rightarrow> byte \<Rightarrow> byte" where
  "gray_of r g b = to_uchar (gray_sum r g b)"

text \<open>\<^verbatim>\<open>src/OMP/image_proc_omp.c\<close>, \<open>grayscale_filter\<close>, lines 115 to 140.\<close>

definition grayscale_body :: "Image \<Rightarrow> Image \<Rightarrow> nat \<Rightarrow> nat \<Rightarrow> heap \<Rightarrow> heap" where
  "grayscale_body input output i j h =
     (let width = img_width input; channels = img_channels input;
          idx = (i * width + j) * channels;
          r = h (img_data input) ! idx;
          g = (if 1 < channels then h (img_data input) ! (idx + 1) else r);
          b = (if 2 < channels then h (img_data input) ! (idx + 2) else r);
          gray = gray_of r g b;
          h = heap_write h (img_data output) idx gray;
          h = (if 1 < channels then heap_write h (img_data output) (idx + 1) gray else h);
          h = (if 2 < channels then heap_write h (img_data output) (idx + 2) gray else h)
      in if 3 < channels
         then heap_write h (img_data output) (idx + 3) (h (img_data input) ! (idx + 3))
         else h)"

definition grayscale_filter :: "Image \<Rightarrow> Image \<Rightarrow> nat \<Rightarrow> heap \<Rightarrow> heap" where
  "grayscale_filter input output thread_count h =
     for_loop 0 (img_height input) (\<lambda>i.
       for_loop 0 (img_width input) (\<lambda>j. grayscale_body input output i j)) h"

text \<open>
  \<^verbatim>\<open>src/MPI/image_proc_mpi.c\<close>, \<open>grayscale_filter_mpi\<close>, lines 266 to 283: the band is
  converted in place.
\<close>

definition grayscale_body_mpi :: "nat \<Rightarrow> nat \<Rightarrow> nat \<Rightarrow> nat \<Rightarrow> byte list \<Rightarrow> byte list" where
  "grayscale_body_mpi width channels i j local_data =
     (let idx = (i * width + j) * channels;
          r = local_data ! idx;
          g = (if 1 < channels then local_data ! (idx + 1) else r);
          b = (if 2 < channels then local_data ! (idx + 2) else r);
          gray = gray_of r g b;
          local_data = local_data[idx := gray];
          local_data = (if 1 < channels then local_data[idx + 1 := gray] else local_data)
      in if 2 < channels then local_data[idx + 2 := gray] else local_data)"

definition grayscale_filter_mpi :: "byte list \<Rightarrow> nat \<Rightarrow> nat \<Rightarrow> nat \<Rightarrow> byte list" where
  "grayscale_filter_mpi local_data local_height width channels =
     for_loop 0 local_height (\<lambda>i.
       for_loop 0 width (\<lambda>j. grayscale_body_mpi width channels i j)) local_data"

section \<open>Brightness\<close>

text \<open>
  The body shared by both programs: \<^verbatim>\<open>int new_val = byte + brightness\<close>, clamped to
  0..255 and cast back.  \<^verbatim>\<open>int\<close> cannot overflow here: the byte is at most 255 and the only
  caller passes 50.
\<close>

definition brighten_byte :: "int \<Rightarrow> byte \<Rightarrow> byte" where
  "brighten_byte brightness v =
     (let new_val = uint v + brightness;
          new_val = (if 255 < new_val then 255 else new_val);
          new_val = (if new_val < 0 then 0 else new_val)
      in word_of_int new_val)"

text \<open>\<^verbatim>\<open>src/OMP/image_proc_omp.c\<close>, \<open>brightness_filter\<close>, lines 237 to 257.\<close>

definition brightness_filter :: "Image \<Rightarrow> Image \<Rightarrow> int \<Rightarrow> nat \<Rightarrow> heap \<Rightarrow> heap" where
  "brightness_filter input output brightness thread_count h =
     (let width = img_width input; height = img_height input; channels = img_channels input
      in for_loop 0 height (\<lambda>i.
           for_loop 0 width (\<lambda>j.
             for_loop 0 channels (\<lambda>c h.
               heap_write h (img_data output) ((i * width + j) * channels + c)
                 (brighten_byte brightness
                    (h (img_data input) ! ((i * width + j) * channels + c)))))) h)"

text \<open>\<^verbatim>\<open>src/MPI/image_proc_mpi.c\<close>, \<open>brightness_filter_mpi\<close>, lines 410 to 420.\<close>

definition brightness_filter_mpi :: "byte list \<Rightarrow> nat \<Rightarrow> nat \<Rightarrow> nat \<Rightarrow> int \<Rightarrow> byte list" where
  "brightness_filter_mpi local_data local_height width channels brightness =
     (let local_size = local_height * width * channels
      in for_loop 0 local_size
           (\<lambda>i local_data. local_data[i := brighten_byte brightness (local_data ! i)])
           local_data)"

section \<open>Gaussian blur and Sobel edge detection, shared-memory program\<close>

text \<open>
  \<open>blur_kernel\<close> is \<^verbatim>\<open>float kernel[3][3]\<close>: sixteenths, exact in \<^verbatim>\<open>float\<close>.  \<open>offsets3\<close> lists the values of
  the loops \<^verbatim>\<open>for (int di = -1; di <= 1; di++)\<close>.
\<close>

definition blur_kernel :: "fp list list" where
  "blur_kernel = [[Fp 1 (- 4), Fp 2 (- 4), Fp 1 (- 4)],
                  [Fp 2 (- 4), Fp 4 (- 4), Fp 2 (- 4)],
                  [Fp 1 (- 4), Fp 2 (- 4), Fp 1 (- 4)]]"

definition Gx :: "int list list" where
  "Gx = [[- 1, 0, 1], [- 2, 0, 2], [- 1, 0, 1]]"

definition Gy :: "int list list" where
  "Gy = [[- 1, - 2, - 1], [0, 0, 0], [1, 2, 1]]"

definition offsets3 :: "int list" where
  "offsets3 = [- 1, 0, 1]"

text \<open>
  \<^verbatim>\<open>src/OMP/image_proc_omp.c\<close>, \<open>gaussian_blur_filter\<close>, lines 142 to 194.  \<open>blur_sum\<close>
  is the accumulation of lines 160 to 168 over the input buffer.
\<close>

definition blur_sum :: "byte list \<Rightarrow> nat \<Rightarrow> nat \<Rightarrow> nat \<Rightarrow> nat \<Rightarrow> nat \<Rightarrow> fp" where
  "blur_sum inp width channels i j c =
     fold (\<lambda>di. fold (\<lambda>dj sum.
        let idx = nat (((int i + di) * int width + (int j + dj)) * int channels + int c)
        in fp_add 24 sum
             (fp_mul 24 (fp_of_int 24 (uint (inp ! idx))) (blur_kernel ! nat (di + 1) ! nat (dj + 1))))
        offsets3) offsets3 (Fp 0 0)"

definition copy_borders :: "Image \<Rightarrow> Image \<Rightarrow> heap \<Rightarrow> heap" where
  "copy_borders input output h =
     (let width = img_width input; height = img_height input; channels = img_channels input
      in for_loop 0 height (\<lambda>i h.
           if i = 0 \<or> i = height - 1
           then for_loop 0 width (\<lambda>j.
                  for_loop 0 channels (\<lambda>c h.
                    heap_write h (img_data output) ((i * width + j) * channels + c)
                      (h (img_data input) ! ((i * width + j) * channels + c)))) h
           else for_loop 0 channels (\<lambda>c h.
                  let idx_left = (i * width) * channels;
                      idx_right = (i * width + width - 1) * channels;
                      h = heap_write h (img_data output) (idx_left + c)
                            (h (img_data input) ! (idx_left + c))
                  in heap_write h (img_data output) (idx_right + c)
                       (h (img_data input) ! (idx_right + c))) h) h)"

definition gaussian_blur_filter :: "Image \<Rightarrow> Image \<Rightarrow> nat \<Rightarrow> heap \<Rightarrow> heap" where
  "gaussian_blur_filter input output thread_count h =
     (let width = img_width input; height = img_height input; channels = img_channels input;
          h = for_loop 1 (height - 1) (\<lambda>i.
                for_loop 1 (width - 1) (\<lambda>j.
                  for_loop 0 channels (\<lambda>c h.
                    heap_write h (img_data output) ((i * width + j) * channels + c)
                      (to_uchar (blur_sum (h (img_data input)) width channels i j c))))) h
      in copy_borders input output h)"

text \<open>
  \<open>sobel_edge_filter\<close>, lines 196 to 235.  The products \<^verbatim>\<open>pixel * Gx[..][..]\<close> are
  \<^verbatim>\<open>int\<close>; they are converted to \<^verbatim>\<open>float\<close> by the additions.  \<^verbatim>\<open>sqrt\<close> takes and returns a
  \<^verbatim>\<open>double\<close>, and the assignment to \<^verbatim>\<open>float magnitude\<close> rounds once more.
\<close>

definition sobel_sums :: "byte list \<Rightarrow> nat \<Rightarrow> nat \<Rightarrow> nat \<Rightarrow> nat \<Rightarrow> fp \<times> fp" where
  "sobel_sums inp width channels i j =
     fold (\<lambda>di. fold (\<lambda>dj (sum_x, sum_y).
        let idx = nat (((int i + di) * int width + (int j + dj)) * int channels);
            pixel = inp ! idx
        in (fp_add 24 sum_x (fp_of_int 24 (uint pixel * Gx ! nat (di + 1) ! nat (dj + 1))),
            fp_add 24 sum_y (fp_of_int 24 (uint pixel * Gy ! nat (di + 1) ! nat (dj + 1)))))
        offsets3) offsets3 (Fp 0 0, Fp 0 0)"

definition edge_value_of :: "fp \<times> fp \<Rightarrow> byte" where
  "edge_value_of acc =
     (let sum_x = fst acc; sum_y = snd acc;
          magnitude = rne 24 (fp_sqrt 53
                        (fp_add 24 (fp_mul 24 sum_x sum_x) (fp_mul 24 sum_y sum_y)));
          magnitude = (if fp_less (Fp 255 0) magnitude then Fp 255 0 else magnitude)
      in to_uchar magnitude)"

definition sobel_edge_filter :: "Image \<Rightarrow> Image \<Rightarrow> nat \<Rightarrow> heap \<Rightarrow> heap" where
  "sobel_edge_filter input output thread_count h =
     (let width = img_width input; height = img_height input; channels = img_channels input
      in for_loop 1 (height - 1) (\<lambda>i.
           for_loop 1 (width - 1) (\<lambda>j h.
             let edge_value = edge_value_of (sobel_sums (h (img_data input)) width channels i j);
                 out_idx = (i * width + j) * channels
             in for_loop 0 channels (\<lambda>c h.
                  heap_write h (img_data output) (out_idx + c) edge_value) h)) h)"

text \<open>
  \<open>main\<close> of the shared-memory program, lines 59 to 106: the input is loaded into one
  buffer, \<open>create_image\<close> (lines 326 to 333) allocates a second, zeroed buffer of the same
  dimensions, the filter named on the command line runs, and the output buffer is saved.
  An unknown filter name ends the run with exit code 1.
\<close>

datatype error = OutOfBounds | UnknownFilter | NoMatchingSend

definition create_image :: "ptr \<Rightarrow> nat \<Rightarrow> nat \<Rightarrow> nat \<Rightarrow> heap \<Rightarrow> Image \<times> heap" where
  "create_image p width height channels h =
     (\<lparr>img_data = p, img_width = width, img_height = height, img_channels = channels\<rparr>,
      h(p := replicate (width * height * channels) 0))"

definition omp_main :: "string \<Rightarrow> nat \<Rightarrow> nat \<Rightarrow> nat \<Rightarrow> nat \<Rightarrow> byte list \<Rightarrow> error + byte list" where
  "omp_main filter_type thread_count width height channels bytes =
     (let (input, h) = create_image 0 width height channels (\<lambda>_. []);
          h = h(img_data input := bytes);
          (output, h) = create_image 1 (img_width input) (img_height input) (img_channels input) h
      in if filter_type = ''grayscale''
         then Inr (grayscale_filter input output thread_count h (img_data output))
         else if filter_type = ''blur''
         then Inr (gaussian_blur_filter input output thread_count h (img_data output))
         else if filter_type = ''edge''
         then Inr (sobel_edge_filter input output thread_count h (img_data output))
         else if filter_type = ''brighten''
         then Inr (brightness_filter input output 50 thread_count h (img_data output))
         else Inl UnknownFilter)"

section \<open>Gaussian blur and Sobel edge detection, distributed program\<close>

text \<open>
  A rank filters its band \<^verbatim>\<open>local_data\<close> in place, reading from the copy \<^verbatim>\<open>temp\<close> made at
  entry and from the two halo rows.  \<open>neighbour_byte\<close> is the selection of lines 320 to
  329 (\<open>k\<close> is the channel, 0 for the edge filter, lines 377 to 386).
\<close>

record band_state =
  local_data :: "byte list"
  temp :: "byte list"

definition neighbour_byte ::
  "byte list \<Rightarrow> byte list \<Rightarrow> byte list \<Rightarrow> nat \<Rightarrow> nat \<Rightarrow> nat \<Rightarrow> int \<Rightarrow> int \<Rightarrow> nat \<Rightarrow> byte" where
  "neighbour_byte tmp halo_top halo_bottom local_height width channels ni nj k =
     (if ni < 0 then halo_top ! nat (nj * int channels + int k)
      else if int local_height \<le> ni then halo_bottom ! nat (nj * int channels + int k)
      else tmp ! nat ((ni * int width + nj) * int channels + int k))"

definition blur_sum_mpi ::
  "byte list \<Rightarrow> byte list \<Rightarrow> byte list \<Rightarrow> nat \<Rightarrow> nat \<Rightarrow> nat \<Rightarrow> nat \<Rightarrow> nat \<Rightarrow> nat \<Rightarrow> fp" where
  "blur_sum_mpi tmp halo_top halo_bottom local_height width channels i j c =
     fold (\<lambda>di. fold (\<lambda>dj sum.
        let ni = int i + di; nj = int j + dj;
            pixel_val = neighbour_byte tmp halo_top halo_bottom local_height width channels ni nj c
        in fp_add 24 sum
             (fp_mul 24 (fp_of_int 24 (uint pixel_val)) (blur_kernel ! nat (di + 1) ! nat (dj + 1))))
        offsets3) offsets3 (Fp 0 0)"

definition skip_row :: "nat \<Rightarrow> int \<Rightarrow> int \<Rightarrow> nat \<Rightarrow> bool" where
  "skip_row local_height rank nprocs i \<longleftrightarrow>
     (rank = 0 \<and> i = 0) \<or> (rank = nprocs - 1 \<and> int i = int local_height - 1)"

definition gaussian_blur_filter_mpi ::
  "byte list \<Rightarrow> byte list \<Rightarrow> byte list \<Rightarrow> nat \<Rightarrow> nat \<Rightarrow> nat \<Rightarrow> int \<Rightarrow> int \<Rightarrow> band_state" where
  "gaussian_blur_filter_mpi band halo_top halo_bottom local_height width channels rank nprocs =
     for_loop 0 local_height (\<lambda>i s.
       let start_j = (if i = 0 \<or> int i = int local_height - 1 then 1 else 1);
           end_j = width - 1
       in if skip_row local_height rank nprocs i then s
          else for_loop start_j end_j (\<lambda>j.
                 for_loop 0 channels (\<lambda>c s.
                   let sum = blur_sum_mpi (temp s) halo_top halo_bottom
                               local_height width channels i j c;
                       out_idx = (i * width + j) * channels + c
                   in s\<lparr>local_data := (local_data s)[out_idx := to_uchar sum]\<rparr>)) s)
       \<lparr>local_data = band, temp = band\<rparr>"

definition sobel_sums_mpi ::
  "byte list \<Rightarrow> byte list \<Rightarrow> byte list \<Rightarrow> nat \<Rightarrow> nat \<Rightarrow> nat \<Rightarrow> nat \<Rightarrow> nat \<Rightarrow> fp \<times> fp" where
  "sobel_sums_mpi tmp halo_top halo_bottom local_height width channels i j =
     fold (\<lambda>di. fold (\<lambda>dj (sum_x, sum_y).
        let ni = int i + di; nj = int j + dj;
            pixel_val = neighbour_byte tmp halo_top halo_bottom local_height width channels ni nj 0
        in (fp_add 24 sum_x (fp_of_int 24 (uint pixel_val * Gx ! nat (di + 1) ! nat (dj + 1))),
            fp_add 24 sum_y (fp_of_int 24 (uint pixel_val * Gy ! nat (di + 1) ! nat (dj + 1)))))
        offsets3) offsets3 (Fp 0 0, Fp 0 0)"

definition sobel_edge_filter_mpi ::
  "byte list \<Rightarrow> byte list \<Rightarrow> byte list \<Rightarrow> nat \<Rightarrow> nat \<Rightarrow> nat \<Rightarrow> int \<Rightarrow> int \<Rightarrow> band_state" where
  "sobel_edge_filter_mpi band halo_top halo_bottom local_height width channels rank nprocs =
     for_loop 0 local_height (\<lambda>i s.
       let start_j = 1; end_j = width - 1
       in if skip_row local_height rank nprocs i then s
          else for_loop start_j end_j (\<lambda>j s.
                 let edge_value = edge_value_of (sobel_sums_mpi (temp s) halo_top halo_bottom
                                    local_height width channels i j);
                     out_idx = (i * width + j) * channels
                 in for_loop 0 channels (\<lambda>c s.
                      s\<lparr>local_data := (local_data s)[out_idx + c := edge_value]\<rparr>) s) s)
       \<lparr>local_data = band, temp = band\<rparr>"

section \<open>Scatter, halo exchange and gather\<close>

text \<open>
  A failure is a value: \<open>Inl\<close> of an \<open>error\<close>.  \<open>c_read buf off count\<close> is a read of
  \<open>count\<close> bytes at \<^verbatim>\<open>buf + off\<close> and \<open>c_write buf off bytes\<close> a write there; both are
  \<open>OutOfBounds\<close> when the range leaves the buffer (undefined behaviour in C).
\<close>

definition bind_err :: "error + 'a \<Rightarrow> ('a \<Rightarrow> error + 'b) \<Rightarrow> error + 'b" where
  "bind_err m f = (case m of Inl e \<Rightarrow> Inl e | Inr x \<Rightarrow> f x)"

fun collect :: "(error + 'a) list \<Rightarrow> error + 'a list" where
  "collect [] = Inr []"
| "collect (x # xs) = bind_err x (\<lambda>y. bind_err (collect xs) (\<lambda>ys. Inr (y # ys)))"

definition c_read :: "byte list \<Rightarrow> int \<Rightarrow> int \<Rightarrow> error + byte list" where
  "c_read buf off count =
     (if 0 \<le> off \<and> 0 \<le> count \<and> off + count \<le> int (length buf)
      then Inr (take (nat count) (drop (nat off) buf))
      else Inl OutOfBounds)"

definition c_write :: "byte list \<Rightarrow> int \<Rightarrow> byte list \<Rightarrow> error + byte list" where
  "c_write buf off bytes =
     (if 0 \<le> off \<and> off + int (length bytes) \<le> int (length buf)
      then Inr (take (nat off) buf @ bytes @ drop (nat off + length bytes) buf)
      else Inl OutOfBounds)"

text \<open>
  \<open>main\<close>, lines 147 to 168 (blur) and 185 to 206 (edge), the same code twice.  A rank
  posts up to two sends, each of \<^verbatim>\<open>row_size\<close> bytes of its band: its first row to rank - 1
  with tag 0, its last row to rank + 1 with tag 1.  It receives from rank - 1 with
  tag 1 into \<^verbatim>\<open>halo_top\<close> and from rank + 1 with tag 0 into \<^verbatim>\<open>halo_bottom\<close>; a receive
  takes the message its source sent to this rank with this tag.  Both halo rows come
  zeroed from \<^verbatim>\<open>calloc\<close>.  \<^verbatim>\<open>MPI_Waitall\<close> returns once the rank's sends and receives are
  complete.
\<close>

record message =
  msg_dest :: int
  msg_tag :: int
  msg_data :: "byte list"

definition posted_sends :: "int \<Rightarrow> int \<Rightarrow> int \<Rightarrow> int \<Rightarrow> byte list \<Rightarrow> error + message list" where
  "posted_sends rank nprocs local_height row_size band =
     bind_err
       (if 0 < rank
        then bind_err (c_read band 0 row_size)
               (\<lambda>d. Inr [\<lparr>msg_dest = rank - 1, msg_tag = 0, msg_data = d\<rparr>])
        else Inr [])
       (\<lambda>up. bind_err
          (if rank < nprocs - 1
           then bind_err (c_read band ((local_height - 1) * row_size) row_size)
                  (\<lambda>d. Inr [\<lparr>msg_dest = rank + 1, msg_tag = 1, msg_data = d\<rparr>])
           else Inr [])
          (\<lambda>down. Inr (up @ down)))"

definition receive :: "error + message list \<Rightarrow> int \<Rightarrow> int \<Rightarrow> error + byte list" where
  "receive sent me tag =
     bind_err sent (\<lambda>ms.
       case find (\<lambda>m. msg_dest m = me \<and> msg_tag m = tag) ms of
         None \<Rightarrow> Inl NoMatchingSend
       | Some m \<Rightarrow> Inr (msg_data m))"

definition halo_exchange ::
  "int \<Rightarrow> int \<Rightarrow> (int \<Rightarrow> int) \<Rightarrow> byte list list \<Rightarrow> int \<Rightarrow> error + byte list \<times> byte list" where
  "halo_exchange nprocs row_size local_height bands rank =
     (let halo_top = replicate (nat row_size) 0;
          halo_bottom = replicate (nat row_size) 0;
          sent = (\<lambda>r. posted_sends r nprocs (local_height r) row_size (bands ! nat r))
      in bind_err (sent rank) (\<lambda>_.
         bind_err (if 0 < rank then receive (sent (rank - 1)) rank 1 else Inr halo_top)
           (\<lambda>halo_top.
         bind_err (if rank < nprocs - 1 then receive (sent (rank + 1)) rank 0 else Inr halo_bottom)
           (\<lambda>halo_bottom. Inr (halo_top, halo_bottom)))))"

text \<open>
  \<^verbatim>\<open>MPI_Scatterv\<close> (lines 122 to 132) hands rank \<open>r\<close> the \<^verbatim>\<open>sendcounts[r]\<close> bytes at
  \<^verbatim>\<open>displs[r]\<close> of the full image; \<^verbatim>\<open>MPI_Gatherv\<close> (lines 230 to 240) writes the bands back
  at the same places.
\<close>

definition scatterv :: "byte list \<Rightarrow> int list \<Rightarrow> int list \<Rightarrow> nat \<Rightarrow> error + byte list list" where
  "scatterv full counts offs n = collect (map (\<lambda>r. c_read full (offs ! r) (counts ! r)) [0..<n])"

definition gatherv :: "byte list \<Rightarrow> int list \<Rightarrow> byte list list \<Rightarrow> nat \<Rightarrow> error + byte list" where
  "gatherv full offs bands n =
     fold (\<lambda>r acc. bind_err acc (\<lambda>buf. c_write buf (offs ! r) (bands ! r))) [0..<n] (Inr full)"

text \<open>The filter dispatch of one rank, lines 135 to 227.\<close>

definition mpi_rank_filter ::
  "string \<Rightarrow> int \<Rightarrow> int \<Rightarrow> nat \<Rightarrow> nat \<Rightarrow> byte list list \<Rightarrow> int \<Rightarrow> error + byte list" where
  "mpi_rank_filter filter_type nprocs height width channels bands rank =
     (let local_height = local_height_of height nprocs rank;
          band = bands ! nat rank;
          row_size = int width * int channels
      in if filter_type = ''grayscale''
         then Inr (grayscale_filter_mpi band (nat local_height) width channels)
         else if filter_type = ''blur''
         then bind_err (halo_exchange nprocs row_size (local_height_of height nprocs) bands rank)
                (\<lambda>(halo_top, halo_bottom).
                   Inr (local_data (gaussian_blur_filter_mpi band halo_top halo_bottom
                          (nat local_height) width channels rank nprocs)))
         else if filter_type = ''edge''
         then bind_err (halo_exchange nprocs row_size (local_height_of height nprocs) bands rank)
                (\<lambda>(halo_top, halo_bottom).
                   Inr (local_data (sobel_edge_filter_mpi band halo_top halo_bottom
                          (nat local_height) width channels rank nprocs)))
         else if filter_type = ''brighten''
         then Inr (brightness_filter_mpi band (nat local_height) width channels 50)
         else Inl UnknownFilter)"

text \<open>
  \<open>main\<close> of the distributed program run by \<open>nprocs\<close> ranks on the image that rank 0
  loaded: partition, scatter, filter on every rank, gather.
\<close>

definition mpi_main ::
  "string \<Rightarrow> int \<Rightarrow> nat \<Rightarrow> int \<Rightarrow> nat \<Rightarrow> byte list \<Rightarrow> error + byte list" where
  "mpi_main filter_type nprocs width height channels full =
     (let p = compute_displs height nprocs (int width) (int channels);
          n = nat nprocs
      in bind_err (scatterv full (sendcounts p) (displs p) n) (\<lambda>bands.
         bind_err (collect (map (\<lambda>r. mpi_rank_filter filter_type nprocs height width channels
                                      bands (int r)) [0..<n])) (\<lambda>filtered.
         gatherv full (displs p) filtered n)))"

section \<open>Facts about counted loops\<close>

lemma for_loop_empty: "hi \<le> lo \<Longrightarrow> for_loop lo hi body s = s"
  by (simp add: for_loop_def)

lemma for_loop_snoc:
  "lo \<le> hi \<Longrightarrow> for_loop lo (Suc hi) body s = body hi (for_loop lo hi body s)"
  by (simp add: for_loop_def)

lemma for_loop_invariant:
  assumes "P lo s"
      and "\<And>i t. lo \<le> i \<Longrightarrow> i < hi \<Longrightarrow> P i t \<Longrightarrow> P (Suc i) (body i t)"
      and "lo \<le> hi"
    shows "P hi (for_loop lo hi body s)"
  using assms(3) assms(2)
proof (induction hi)
  case 0
  then show ?case using assms(1) by (simp add: for_loop_empty)
next
  case (Suc hi)
  show ?case
  proof (cases "lo \<le> hi")
    case True
    have "P hi (for_loop lo hi body s)"
      by (rule Suc.IH [OF True]) (simp add: Suc.prems(2))
    then have "P (Suc hi) (body hi (for_loop lo hi body s))"
      by (rule Suc.prems(2) [OF True lessI])
    then show ?thesis by (simp add: for_loop_snoc True)
  next
    case False
    then have "lo = Suc hi" using Suc.prems(1) by simp
    then show ?thesis using assms(1) by (simp add: for_loop_empty)
  qed
qed

section \<open>The partition covers the rows\<close>

lemma sdiv_nonneg: "0 \<le> a \<Longrightarrow> 0 < b \<Longrightarrow> (a::int) sdiv b = a div b"
  by (simp add: signed_divide_int_def sgn_if)

lemma smod_nonneg: "0 \<le> a \<Longrightarrow> 0 < b \<Longrightarrow> (a::int) smod b = a mod b"
  by (simp add: signed_modulo_int_def signed_divide_int_def sgn_if)

lemma local_height_of_eq:
  assumes "0 \<le> height" "1 \<le> nprocs"
  shows "local_height_of height nprocs rank
           = height div nprocs + (if rank < height mod nprocs then 1 else 0)"
  using assms
  by (simp add: local_height_of_def rows_per_process_def remainder_def sdiv_nonneg smod_nonneg)

lemma sum_extra_rows:
  "0 \<le> m \<Longrightarrow> (\<Sum>r<n. (if int r < m then 1 else 0)) = min (int n) m"
  by (induction n) auto

lemma sum_local_height_of:
  assumes "0 \<le> height" "1 \<le> nprocs"
  shows "(\<Sum>r<nat nprocs. local_height_of height nprocs (int r)) = height"
proof -
  have m: "0 \<le> height mod nprocs" "height mod nprocs < nprocs"
    using assms by simp_all
  have "(\<Sum>r<nat nprocs. local_height_of height nprocs (int r))
        = (\<Sum>r<nat nprocs. height div nprocs)
          + (\<Sum>r<nat nprocs. (if int r < height mod nprocs then 1 else 0))"
    by (simp add: local_height_of_eq [OF assms] sum.distrib)
  also have "\<dots> = nprocs * (height div nprocs) + height mod nprocs"
    using m assms by (simp add: sum_extra_rows)
  finally show ?thesis by simp
qed

text \<open>
  The loop invariant of lines 104 to 111: before iteration \<open>i\<close>, \<^verbatim>\<open>offset\<close> is the byte
  size of the bands of ranks below \<open>i\<close>, and the cells below \<open>i\<close> are final.
\<close>

definition partition_inv ::
  "int \<Rightarrow> int \<Rightarrow> int \<Rightarrow> int \<Rightarrow> nat \<Rightarrow> partition_state \<Rightarrow> bool" where
  "partition_inv height nprocs width channels i s \<longleftrightarrow>
     length (sendcounts s) = nat nprocs \<and> length (displs s) = nat nprocs \<and>
     offset s = (\<Sum>k<i. local_height_of height nprocs (int k)) * width * channels \<and>
     (\<forall>j<i. sendcounts s ! j = local_height_of height nprocs (int j) * width * channels \<and>
            displs s ! j = (\<Sum>k<j. local_height_of height nprocs (int k)) * width * channels)"

lemma partition_inv_step:
  assumes "partition_inv height nprocs width channels i s" "i < nat nprocs"
  shows "partition_inv height nprocs width channels (Suc i)
           (partition_step height nprocs width channels i s)"
  using assms
  by (auto simp: partition_inv_def partition_step_def local_height_of_def Let_def less_Suc_eq
      nth_list_update algebra_simps)

lemma partition_inv_final:
  "partition_inv height nprocs width channels (nat nprocs)
     (compute_displs height nprocs width channels)"
  unfolding compute_displs_def
proof (rule for_loop_invariant)
  show "partition_inv height nprocs width channels 0 (partition_init nprocs)"
    by (simp add: partition_inv_def partition_init_def)
qed (simp_all add: partition_inv_step)

text \<open>
  Claim C3.  For every height above 0 and every worker count of at least 1: the row count
  of worker \<open>r\<close> is \<open>height div nprocs\<close>, plus one for the first \<open>height mod nprocs\<close>
  workers; no row count is negative; the row counts add up to \<open>height\<close>; and the byte
  count and byte offset that rank 0 computes for worker \<open>i\<close> are its row count and the sum
  of the row counts of the workers before it (the exclusive prefix sum), each times the
  bytes of a row.
\<close>

theorem partition_row_coverage:
  assumes "0 < height" "1 \<le> nprocs"
  shows "(\<forall>r. 0 \<le> r \<and> r < nprocs \<longrightarrow>
            local_height_of height nprocs r
              = height div nprocs + (if r < height mod nprocs then 1 else 0) \<and>
            0 \<le> local_height_of height nprocs r) \<and>
         (\<Sum>r<nat nprocs. local_height_of height nprocs (int r)) = height \<and>
         (\<forall>i<nat nprocs.
            sendcounts (compute_displs height nprocs width channels) ! i
              = local_height_of height nprocs (int i) * width * channels \<and>
            displs (compute_displs height nprocs width channels) ! i
              = (\<Sum>k<i. local_height_of height nprocs (int k)) * width * channels)"
proof -
  have h: "0 \<le> height" using assms by simp
  have "0 \<le> height div nprocs" using assms by (simp add: pos_imp_zdiv_nonneg_iff)
  then have a: "\<forall>r. 0 \<le> r \<and> r < nprocs \<longrightarrow>
            local_height_of height nprocs r
              = height div nprocs + (if r < height mod nprocs then 1 else 0) \<and>
            0 \<le> local_height_of height nprocs r"
    by (simp add: local_height_of_eq [OF h assms(2)])
  have c: "\<forall>i<nat nprocs.
            sendcounts (compute_displs height nprocs width channels) ! i
              = local_height_of height nprocs (int i) * width * channels \<and>
            displs (compute_displs height nprocs width channels) ! i
              = (\<Sum>k<i. local_height_of height nprocs (int k)) * width * channels"
    using partition_inv_final [of height nprocs width channels]
    by (simp add: partition_inv_def)
  show ?thesis using a sum_local_height_of [OF h assms(2)] c by blast
qed

text \<open>Seven rows of four RGB pixels over three workers: 3, 2 and 2 rows.\<close>

theorem partition_row_coverage_witness:
  "local_height_of 7 3 0 = 7 div 3 + 1 \<and> 0 \<le> local_height_of 7 3 0 \<and>
   (\<Sum>r<nat 3. local_height_of 7 3 (int r)) = 7 \<and>
   sendcounts (compute_displs 7 3 4 3) ! 2 = local_height_of 7 3 (int 2) * 4 * 3 \<and>
   displs (compute_displs 7 3 4 3) ! 2 = (\<Sum>k<2. local_height_of 7 3 (int k)) * 4 * 3"
proof -
  have h: "(0::int) < 7" "(1::int) \<le> 3" by simp_all
  note t = partition_row_coverage [OF h, of 4 3]
  from t have a: "0 \<le> (0::int) \<and> (0::int) < 3 \<longrightarrow>
            local_height_of 7 3 0 = 7 div 3 + (if (0::int) < 7 mod 3 then 1 else 0) \<and>
            0 \<le> local_height_of 7 3 0"
    by blast
  from t have b: "(\<Sum>r<nat 3. local_height_of 7 3 (int r)) = 7" by blast
  from t have c: "2 < nat 3 \<longrightarrow>
            sendcounts (compute_displs 7 3 4 3) ! 2 = local_height_of 7 3 (int 2) * 4 * 3 \<and>
            displs (compute_displs 7 3 4 3) ! 2 = (\<Sum>k<2. local_height_of 7 3 (int k)) * 4 * 3"
    by blast
  from a have a': "local_height_of 7 3 0 = 7 div 3 + 1 \<and> 0 \<le> local_height_of 7 3 0" by simp
  from c have c': "sendcounts (compute_displs 7 3 4 3) ! 2 = local_height_of 7 3 (int 2) * 4 * 3 \<and>
            displs (compute_displs 7 3 4 3) ! 2 = (\<Sum>k<2. local_height_of 7 3 (int k)) * 4 * 3"
    by simp
  show ?thesis using a' b c' by blast
qed

text \<open>
  Claim C10.  For every height of at least 0 and every worker count of at least 1, the
  row counts of any two workers differ by at most 1, and a worker of higher rank never
  has more rows than a worker of lower rank.
\<close>

theorem partition_balanced:
  assumes "0 \<le> height" "1 \<le> nprocs" "0 \<le> r" "r < nprocs" "0 \<le> t" "t < nprocs"
  shows "\<bar>local_height_of height nprocs r - local_height_of height nprocs t\<bar> \<le> 1 \<and>
         (r \<le> t \<longrightarrow> local_height_of height nprocs t \<le> local_height_of height nprocs r)"
  by (simp add: local_height_of_eq [OF assms(1,2)])

theorem partition_balanced_witness:
  "\<bar>local_height_of 7 3 0 - local_height_of 7 3 2\<bar> \<le> 1 \<and>
   local_height_of 7 3 2 \<le> local_height_of 7 3 0 \<and>
   local_height_of 7 3 0 = 3 \<and> local_height_of 7 3 2 = 2"
proof -
  have "\<bar>local_height_of 7 3 0 - local_height_of 7 3 2\<bar> \<le> 1 \<and>
         ((0::int) \<le> 2 \<longrightarrow> local_height_of 7 3 2 \<le> local_height_of 7 3 0)"
    by (rule partition_balanced) simp_all
  moreover have "local_height_of 7 3 0 = 3 \<and> local_height_of 7 3 2 = 2"
    by (simp add: local_height_of_def rows_per_process_def remainder_def
        signed_divide_int_def signed_modulo_int_def)
  ultimately show ?thesis by simp
qed

section \<open>More facts about counted loops\<close>

lemma for_loop_shift:
  "for_loop 0 n (\<lambda>j. f (a + j)) (for_loop 0 a f s) = for_loop 0 (a + n) f s"
  by (induction n) (simp_all add: for_loop_empty for_loop_snoc)

lemma for_loop_nested_flat:
  "for_loop 0 m (\<lambda>i. for_loop 0 n (\<lambda>j. f (i * n + j))) s = for_loop 0 (m * n) f s"
proof (induction m)
  case 0
  show ?case by (simp add: for_loop_empty)
next
  case (Suc m)
  have "for_loop 0 (Suc m) (\<lambda>i. for_loop 0 n (\<lambda>j. f (i * n + j))) s
        = for_loop 0 n (\<lambda>j. f (m * n + j)) (for_loop 0 (m * n) f s)"
    by (simp add: for_loop_snoc Suc.IH)
  also have "\<dots> = for_loop 0 (m * n + n) f s" by (rule for_loop_shift)
  finally show ?case by (simp add: add.commute)
qed

lemma for_loop_length:
  assumes "\<And>i t. length (body i t) = length t"
  shows "length (for_loop lo hi body s) = length s"
proof (cases "lo \<le> hi")
  case True
  show ?thesis
    by (rule for_loop_invariant [where P = "\<lambda>_ t. length t = length s", OF _ _ True])
       (simp_all add: assms)
next
  case False
  then show ?thesis by (simp add: for_loop_empty)
qed

lemma for_loop_heap:
  assumes "inp \<noteq> outp"
      and "\<And>i t. lo \<le> i \<Longrightarrow> i < hi \<Longrightarrow> t inp = h inp \<Longrightarrow> body i t = t(outp := g i (t outp))"
  shows "for_loop lo hi body h = h(outp := for_loop lo hi g (h outp))"
proof (cases "lo \<le> hi")
  case True
  show ?thesis
  proof (rule for_loop_invariant
      [where P = "\<lambda>k t. t = h(outp := for_loop lo k g (h outp))", OF _ _ True])
    show "h = h(outp := for_loop lo lo g (h outp))" by (simp add: for_loop_empty)
  next
    fix i t
    assume i: "lo \<le> i" "i < hi" and t: "t = h(outp := for_loop lo i g (h outp))"
    have "t inp = h inp" using assms(1) t by simp
    then have "body i t = t(outp := g i (t outp))" by (rule assms(2) [OF i])
    then show "body i t = h(outp := for_loop lo (Suc i) g (h outp))"
      using t i by (simp add: for_loop_snoc)
  qed
next
  case False
  then show ?thesis by (simp add: for_loop_empty)
qed

lemma for_loop_pointwise_all:
  "\<forall>k<length s.
   for_loop 0 n (\<lambda>i t. t[i := f i (t ! i)]) s ! k = (if k < n then f k (s ! k) else s ! k)"
proof (induction n)
  case 0
  show ?case by (simp add: for_loop_empty)
next
  case (Suc n)
  have len: "length (for_loop 0 n (\<lambda>i t. t[i := f i (t ! i)]) s) = length s"
    by (rule for_loop_length) simp
  show ?case using Suc len by (simp add: for_loop_snoc nth_list_update less_Suc_eq)
qed

lemma for_loop_pointwise:
  "k < length s \<Longrightarrow>
   for_loop 0 n (\<lambda>i t. t[i := f i (t ! i)]) s ! k = (if k < n then f k (s ! k) else s ! k)"
  using for_loop_pointwise_all [of s n f] by blast

lemma clamp_byte:
  fixes x :: int
  assumes "0 \<le> x" "x < 256"
  shows "uint (word_of_int (if (if 255 < x + 50 then 255 else x + 50) < 0 then 0
                            else (if 255 < x + 50 then 255 else x + 50)) :: byte)
         = max 0 (min 255 (x + 50))"
  using assms by (auto simp: uint_word_of_int take_bit_eq_mod)

section \<open>Brightness: every byte is clamped\<close>

lemma uint_brighten_byte:
  "uint (brighten_byte 50 v) = max 0 (min 255 (uint v + 50))"
  unfolding brighten_byte_def Let_def
  by (rule clamp_byte) (use uint_lt2p [of v] in simp_all)

lemma brightness_filter_mpi_nth:
  assumes "k < length band"
  shows "brightness_filter_mpi band local_height width channels b ! k
         = (if k < local_height * width * channels then brighten_byte b (band ! k) else band ! k)"
  unfolding brightness_filter_mpi_def Let_def
  using for_loop_pointwise [OF assms, of "local_height * width * channels" "\<lambda>i. brighten_byte b"]
  by simp

lemma brightness_filter_heap:
  assumes "img_data input \<noteq> img_data output"
  shows "brightness_filter input output b tc h
         = h(img_data output :=
               for_loop 0 (img_height input * img_width input * img_channels input)
                 (\<lambda>k out. out[k := brighten_byte b (h (img_data input) ! k)])
                 (h (img_data output)))"
proof -
  let ?w = "img_width input" and ?c = "img_channels input" and ?ht = "img_height input"
  let ?g = "\<lambda>k out. out[k := brighten_byte b (h (img_data input) ! k)]"
  have "brightness_filter input output b tc h
        = h(img_data output :=
             for_loop 0 ?ht (\<lambda>i. for_loop 0 ?w (\<lambda>j. for_loop 0 ?c (\<lambda>c. ?g ((i * ?w + j) * ?c + c))))
               (h (img_data output)))"
    unfolding brightness_filter_def Let_def
    apply (rule for_loop_heap [OF assms])
    apply (rule for_loop_heap [OF assms])
    apply (rule for_loop_heap [OF assms])
    apply (simp add: heap_write_def)
    done
  also have "for_loop 0 ?ht (\<lambda>i. for_loop 0 ?w (\<lambda>j. for_loop 0 ?c (\<lambda>c. ?g ((i * ?w + j) * ?c + c))))
               (h (img_data output))
             = for_loop 0 (?ht * ?w * ?c) ?g (h (img_data output))"
    by (simp add: for_loop_nested_flat [of _ ?c ?g] for_loop_nested_flat [of ?ht ?w "\<lambda>p. for_loop 0 ?c (\<lambda>c. ?g (p * ?c + c))"]
          cong: if_cong)
  finally show ?thesis .
qed


lemma pixel_index_bound:
  fixes i j c height width channels :: nat
  assumes "i < height" "j < width" "c < channels"
  shows "(i * width + j) * channels + c < height * width * channels"
proof -
  have "i * width + j < height * width"
  proof -
    have "i * width + j < i * width + width" using assms(2) by simp
    also have "\<dots> = Suc i * width" by simp
    also have "\<dots> \<le> height * width" using assms(1) by (intro mult_le_mono1) simp
    finally show ?thesis .
  qed
  then have "Suc (i * width + j) * channels \<le> height * width * channels"
    by (intro mult_le_mono1) simp
  then show ?thesis using assms(3) by simp
qed

text \<open>
  Claim C5.  For every byte of every channel of every pixel, the brighten filter of both
  programs (called with 50, as \<open>main\<close> does) writes the input byte plus 50, clamped to
  0..255.  In the shared-memory program the output buffer is another buffer than the
  input; in the distributed program the band is overwritten.
\<close>

theorem brighten_exact:
  assumes "img_data input \<noteq> img_data output"
      and "length (h (img_data output)) = img_height input * img_width input * img_channels input"
      and "length band = local_height * width * channels"
  shows "(\<forall>i<img_height input. \<forall>j<img_width input. \<forall>c<img_channels input.
            uint (brightness_filter input output 50 thread_count h (img_data output)
                    ! ((i * img_width input + j) * img_channels input + c))
            = max 0 (min 255
                (uint (h (img_data input) ! ((i * img_width input + j) * img_channels input + c))
                 + 50))) \<and>
         (\<forall>i<local_height. \<forall>j<width. \<forall>c<channels.
            uint (brightness_filter_mpi band local_height width channels 50
                    ! ((i * width + j) * channels + c))
            = max 0 (min 255 (uint (band ! ((i * width + j) * channels + c)) + 50)))"
proof (intro conjI allI impI)
  fix i j c
  assume b: "i < img_height input" "j < img_width input" "c < img_channels input"
  let ?k = "(i * img_width input + j) * img_channels input + c"
  have k: "?k < img_height input * img_width input * img_channels input"
    by (rule pixel_index_bound [OF b])
  then have "brightness_filter input output 50 thread_count h (img_data output) ! ?k
             = brighten_byte 50 (h (img_data input) ! ?k)"
    using assms(2)
    by (simp add: brightness_filter_heap [OF assms(1)]
        for_loop_pointwise [where f = "\<lambda>k _. brighten_byte 50 (h (img_data input) ! k)"])
  then show "uint (brightness_filter input output 50 thread_count h (img_data output) ! ?k)
             = max 0 (min 255 (uint (h (img_data input) ! ?k) + 50))"
    by (simp add: uint_brighten_byte)
next
  fix i j c
  assume b: "i < local_height" "j < width" "c < channels"
  let ?k = "(i * width + j) * channels + c"
  have k: "?k < local_height * width * channels"
    by (rule pixel_index_bound [OF b])
  then have "brightness_filter_mpi band local_height width channels 50 ! ?k
             = brighten_byte 50 (band ! ?k)"
    using assms(3) by (simp add: brightness_filter_mpi_nth)
  then show "uint (brightness_filter_mpi band local_height width channels 50 ! ?k)
             = max 0 (min 255 (uint (band ! ?k) + 50))"
    by (simp add: uint_brighten_byte)
qed

text \<open>One RGB pixel (10, 200, 230): 230 + 50 is clamped to 255, 10 + 50 is 60.\<close>

definition demo_input :: Image where
  "demo_input = \<lparr>img_data = 0, img_width = 1, img_height = 1, img_channels = 3\<rparr>"

definition demo_output :: Image where
  "demo_output = \<lparr>img_data = 1, img_width = 1, img_height = 1, img_channels = 3\<rparr>"

definition demo_heap :: heap where
  "demo_heap = (\<lambda>_. [])(0 := [10, 200, 230], 1 := [0, 0, 0])"

theorem brighten_exact_witness:
  "uint (brightness_filter demo_input demo_output 50 4 demo_heap (img_data demo_output) ! 2) = 255 \<and>
   uint (brightness_filter_mpi [10, 200, 230] 1 1 3 50 ! 0) = 60"
proof -
  have a: "img_data demo_input \<noteq> img_data demo_output"
    by (simp add: demo_input_def demo_output_def)
  have b: "length (demo_heap (img_data demo_output))
           = img_height demo_input * img_width demo_input * img_channels demo_input"
    by (simp add: demo_input_def demo_output_def demo_heap_def)
  have c: "length [10, 200, 230 :: byte] = 1 * 1 * 3" by simp
  note t = brighten_exact [of demo_input demo_output demo_heap "[10, 200, 230]" 1 1 3 4, OF a b c]
  have i: "(0::nat) < img_height demo_input" "(0::nat) < img_width demo_input"
    "(2::nat) < img_channels demo_input"
    by (simp_all add: demo_input_def)
  note x = t [THEN conjunct1, rule_format, OF i]
  have xi: "(0 * img_width demo_input + 0) * img_channels demo_input + 2 = 2"
    by (simp add: demo_input_def)
  have xv: "demo_heap (img_data demo_input) ! 2 = 230"
    by (simp add: demo_heap_def demo_input_def)
  have j: "(0::nat) < 1" "(0::nat) < 1" "(0::nat) < 3" by simp_all
  note y = t [THEN conjunct2, rule_format, OF j]
  have yi: "((0::nat) * 1 + 0) * 3 + 0 = 0" by simp
  have yv: "[10, 200, 230 :: byte] ! 0 = 10" by simp
  show ?thesis
  proof (rule conjI)
    show "uint (brightness_filter demo_input demo_output 50 4 demo_heap (img_data demo_output) ! 2)
          = 255"
      using x unfolding xi xv by simp
    show "uint (brightness_filter_mpi [10, 200, 230] 1 1 3 50 ! 0) = 60"
      using y unfolding yi yv by simp
  qed
qed

section \<open>Filters on a uniform image\<close>

text \<open>
  \<open>fill W v out\<close> is the buffer \<open>out\<close> after the value \<open>v\<close> was stored at every
  position of \<open>W\<close>.  A loop whose iterations all store the same value stores it at the
  union of their positions.
\<close>

definition fill :: "nat set \<Rightarrow> byte \<Rightarrow> byte list \<Rightarrow> byte list" where
  "fill W v out = map (\<lambda>k. if k \<in> W then v else out ! k) [0..<length out]"

lemma length_fill: "length (fill W v out) = length out"
  by (simp add: fill_def)

lemma nth_fill: "k < length out \<Longrightarrow> fill W v out ! k = (if k \<in> W then v else out ! k)"
  by (simp add: fill_def)

lemma fill_empty: "fill {} v out = out"
  by (simp add: fill_def map_nth)

lemma fill_fill: "fill W v (fill W' v out) = fill (W' \<union> W) v out"
  by (auto simp: fill_def)

lemma update_fill: "out[i := v] = fill {i} v out"
  by (rule nth_equalityI) (simp_all add: length_fill nth_fill nth_list_update)

lemma for_loop_fill:
  assumes "\<And>i t. lo \<le> i \<Longrightarrow> i < hi \<Longrightarrow> length t = length out \<Longrightarrow> body i t = fill (W i) v t"
  shows "for_loop lo hi body out = fill (\<Union>i\<in>{lo..<hi}. W i) v out"
proof (cases "lo \<le> hi")
  case True
  show ?thesis
  proof (rule for_loop_invariant
      [where P = "\<lambda>k t. t = fill (\<Union>i\<in>{lo..<k}. W i) v out", OF _ _ True])
    show "out = fill (\<Union>i\<in>{lo..<lo}. W i) v out" by (simp add: fill_empty)
  next
    fix i t
    assume i: "lo \<le> i" "i < hi" and t: "t = fill (\<Union>i\<in>{lo..<i}. W i) v out"
    have "length t = length out" using t by (simp add: length_fill)
    then have "body i t = fill (W i) v t" by (rule assms [OF i])
    also have "\<dots> = fill ((\<Union>i\<in>{lo..<i}. W i) \<union> W i) v out"
      unfolding t by (rule fill_fill)
    also have "(\<Union>i\<in>{lo..<i}. W i) \<union> W i = (\<Union>i\<in>{lo..<Suc i}. W i)"
      using i(1) by (auto simp: less_Suc_eq)
    finally show "body i t = fill (\<Union>i\<in>{lo..<Suc i}. W i) v out" .
  qed
next
  case False
  then show ?thesis by (simp add: for_loop_empty fill_empty)
qed

lemma neighbour_index:
  fixes i j c width channels :: nat
  assumes "1 \<le> i" "1 \<le> j" "di \<in> {- 1, 0, 1}" "dj \<in> {- 1, 0, 1}"
  shows "nat (((int i + di) * int width + (int j + dj)) * int channels + int c)
         = (nat (int i + di) * width + nat (int j + dj)) * channels + c"
proof -
  have a: "0 \<le> int i + di" "0 \<le> int j + dj" using assms by auto
  have "((int i + di) * int width + (int j + dj)) * int channels + int c
        = int ((nat (int i + di) * width + nat (int j + dj)) * channels + c)"
    using a by simp
  then show ?thesis by (simp only: nat_int)
qed

lemma neighbour_index_bound:
  fixes i j c height width channels :: nat
  assumes "1 \<le> i" "i < height - 1" "1 \<le> j" "j < width - 1" "c < channels"
      and "di \<in> {- 1, 0, 1}" "dj \<in> {- 1, 0, 1}"
  shows "nat (((int i + di) * int width + (int j + dj)) * int channels + int c)
         < height * width * channels"
proof -
  have "nat (int i + di) < height" "nat (int j + dj) < width" using assms by auto
  then show ?thesis
    unfolding neighbour_index [OF assms(1,3,6,7)] using assms(5) by (rule pixel_index_bound)
qed

text \<open>The two accumulations when every pixel read has the same value \<open>v\<close>.\<close>

definition blur_sum_const :: "byte \<Rightarrow> fp" where
  "blur_sum_const v =
     fold (\<lambda>di. fold (\<lambda>dj sum.
        fp_add 24 sum
          (fp_mul 24 (fp_of_int 24 (uint v)) (blur_kernel ! nat (di + 1) ! nat (dj + 1))))
        offsets3) offsets3 (Fp 0 0)"

definition sobel_sums_const :: "byte \<Rightarrow> fp \<times> fp" where
  "sobel_sums_const v =
     fold (\<lambda>di. fold (\<lambda>dj (sum_x, sum_y).
        (fp_add 24 sum_x (fp_of_int 24 (uint v * Gx ! nat (di + 1) ! nat (dj + 1))),
         fp_add 24 sum_y (fp_of_int 24 (uint v * Gy ! nat (di + 1) ! nat (dj + 1)))))
        offsets3) offsets3 (Fp 0 0, Fp 0 0)"

lemma blur_sum_const_100: "to_uchar (blur_sum_const 100) = 100"
  by code_simp

lemma sobel_sums_const_100: "edge_value_of (sobel_sums_const 100) = 0"
  by code_simp

lemma blur_sum_uniform:
  assumes "\<And>di dj. di \<in> set offsets3 \<Longrightarrow> dj \<in> set offsets3 \<Longrightarrow>
             inp ! nat (((int i + di) * int width + (int j + dj)) * int channels + int c) = v"
  shows "blur_sum inp width channels i j c = blur_sum_const v"
  unfolding blur_sum_def blur_sum_const_def
  by (intro fold_cong refl ext) (simp add: assms)

lemma sobel_sums_uniform:
  assumes "\<And>di dj. di \<in> set offsets3 \<Longrightarrow> dj \<in> set offsets3 \<Longrightarrow>
             inp ! nat (((int i + di) * int width + (int j + dj)) * int channels) = v"
  shows "sobel_sums inp width channels i j = sobel_sums_const v"
  unfolding sobel_sums_def sobel_sums_const_def
  by (intro fold_cong refl ext) (simp add: assms)

lemma blur_sum_replicate:
  assumes "1 \<le> i" "i < height - 1" "1 \<le> j" "j < width - 1" "c < channels"
  shows "blur_sum (replicate (height * width * channels) v) width channels i j c
         = blur_sum_const v"
proof (rule blur_sum_uniform)
  fix di dj assume "di \<in> set offsets3" "dj \<in> set offsets3"
  then have "di \<in> {- 1, 0, 1}" "dj \<in> {- 1, 0, 1}" by (auto simp: offsets3_def)
  from neighbour_index_bound [OF assms this]
  show "replicate (height * width * channels) v
          ! nat (((int i + di) * int width + (int j + dj)) * int channels + int c) = v"
    by simp
qed

lemma sobel_sums_replicate:
  assumes "1 \<le> i" "i < height - 1" "1 \<le> j" "j < width - 1" "0 < channels"
  shows "sobel_sums (replicate (height * width * channels) v) width channels i j
         = sobel_sums_const v"
proof (rule sobel_sums_uniform)
  fix di dj assume "di \<in> set offsets3" "dj \<in> set offsets3"
  then have "di \<in> {- 1, 0, 1}" "dj \<in> {- 1, 0, 1}" by (auto simp: offsets3_def)
  from neighbour_index_bound [OF assms(1-4), of 0 channels, OF assms(5) this]
  show "replicate (height * width * channels) v
          ! nat (((int i + di) * int width + (int j + dj)) * int channels) = v"
    by simp
qed


text \<open>
  The positions written by the stencil loops (rows and columns 1 to the last but one), and
  the positions written by the border copy of the blur.
\<close>

definition interior_bytes :: "nat \<Rightarrow> nat \<Rightarrow> nat \<Rightarrow> nat set" where
  "interior_bytes height width channels =
     (\<Union>i\<in>{1..<height - 1}. \<Union>j\<in>{1..<width - 1}. \<Union>c\<in>{0..<channels}.
        {(i * width + j) * channels + c})"

definition border_bytes :: "nat \<Rightarrow> nat \<Rightarrow> nat \<Rightarrow> nat set" where
  "border_bytes height width channels =
     (\<Union>i\<in>{0..<height}.
        if i = 0 \<or> i = height - 1
        then \<Union>j\<in>{0..<width}. \<Union>c\<in>{0..<channels}. {(i * width + j) * channels + c}
        else \<Union>c\<in>{0..<channels}.
               {(i * width) * channels + c} \<union> {(i * width + width - 1) * channels + c})"

lemma blur_rows_uniform:
  assumes "img_data input \<noteq> img_data output"
      and "h (img_data input)
           = replicate (img_height input * img_width input * img_channels input) 100"
  shows "for_loop 1 (img_height input - 1) (\<lambda>i.
           for_loop 1 (img_width input - 1) (\<lambda>j.
             for_loop 0 (img_channels input) (\<lambda>c h.
               heap_write h (img_data output) ((i * img_width input + j) * img_channels input + c)
                 (to_uchar (blur_sum (h (img_data input)) (img_width input)
                    (img_channels input) i j c))))) h
         = h(img_data output :=
               fill (interior_bytes (img_height input) (img_width input) (img_channels input)) 100
                 (h (img_data output)))"
proof -
  let ?W = "img_width input" and ?C = "img_channels input" and ?H = "img_height input"
  let ?d = "h (img_data input)"
  let ?g = "\<lambda>i j c (out :: byte list).
              out[(i * ?W + j) * ?C + c := to_uchar (blur_sum ?d ?W ?C i j c)]"
  have "for_loop 1 (?H - 1) (\<lambda>i. for_loop 1 (?W - 1) (\<lambda>j. for_loop 0 ?C (\<lambda>c h.
               heap_write h (img_data output) ((i * ?W + j) * ?C + c)
                 (to_uchar (blur_sum (h (img_data input)) ?W ?C i j c))))) h
        = h(img_data output :=
              for_loop 1 (?H - 1) (\<lambda>i. for_loop 1 (?W - 1) (\<lambda>j. for_loop 0 ?C (?g i j)))
                (h (img_data output)))"
    apply (rule for_loop_heap [OF assms(1)])
    apply (rule for_loop_heap [OF assms(1)])
    apply (rule for_loop_heap [OF assms(1)])
    apply (simp add: heap_write_def)
    done
  also have "for_loop 1 (?H - 1) (\<lambda>i. for_loop 1 (?W - 1) (\<lambda>j. for_loop 0 ?C (?g i j)))
                (h (img_data output))
             = fill (interior_bytes ?H ?W ?C) 100 (h (img_data output))"
    unfolding interior_bytes_def
    apply (rule for_loop_fill)
    apply (rule for_loop_fill)
    apply (rule for_loop_fill)
    apply (simp add: assms(2) blur_sum_replicate blur_sum_const_100 update_fill)
    done
  finally show ?thesis .
qed


lemma copy_borders_uniform:
  assumes "img_data input \<noteq> img_data output"
      and "h (img_data input)
           = replicate (img_height input * img_width input * img_channels input) 100"
      and "0 < img_width input"
  shows "copy_borders input output h
         = h(img_data output :=
               fill (border_bytes (img_height input) (img_width input) (img_channels input)) 100
                 (h (img_data output)))"
proof -
  let ?W = "img_width input" and ?C = "img_channels input" and ?H = "img_height input"
  let ?d = "h (img_data input)"
  let ?row = "\<lambda>i. for_loop 0 ?W (\<lambda>j. for_loop 0 ?C (\<lambda>c (out :: byte list).
                out[(i * ?W + j) * ?C + c := ?d ! ((i * ?W + j) * ?C + c)]))"
  let ?ends = "\<lambda>i. for_loop 0 ?C (\<lambda>c (out :: byte list).
                out[(i * ?W) * ?C + c := ?d ! ((i * ?W) * ?C + c),
                    (i * ?W + ?W - 1) * ?C + c := ?d ! ((i * ?W + ?W - 1) * ?C + c)])"
  let ?g = "\<lambda>i. if i = 0 \<or> i = ?H - 1 then ?row i else ?ends i"
  have "copy_borders input output h
        = h(img_data output := for_loop 0 ?H ?g (h (img_data output)))"
    unfolding copy_borders_def Let_def
  proof (rule for_loop_heap [OF assms(1)])
    fix i t
    assume t: "t (img_data input) = h (img_data input)"
    show "(if i = 0 \<or> i = ?H - 1
           then for_loop 0 ?W (\<lambda>j. for_loop 0 ?C (\<lambda>c h.
                  heap_write h (img_data output) ((i * ?W + j) * ?C + c)
                    (h (img_data input) ! ((i * ?W + j) * ?C + c)))) t
           else for_loop 0 ?C (\<lambda>c h.
                  heap_write (heap_write h (img_data output) (i * ?W * ?C + c)
                                (h (img_data input) ! (i * ?W * ?C + c)))
                    (img_data output) ((i * ?W + ?W - 1) * ?C + c)
                    (heap_write h (img_data output) (i * ?W * ?C + c)
                       (h (img_data input) ! (i * ?W * ?C + c))
                       (img_data input) ! ((i * ?W + ?W - 1) * ?C + c))) t)
          = t(img_data output := ?g i (t (img_data output)))"
    proof (cases "i = 0 \<or> i = ?H - 1")
      case True
      have "for_loop 0 ?W (\<lambda>j. for_loop 0 ?C (\<lambda>c h.
                  heap_write h (img_data output) ((i * ?W + j) * ?C + c)
                    (h (img_data input) ! ((i * ?W + j) * ?C + c)))) t
            = t(img_data output := ?row i (t (img_data output)))"
        apply (rule for_loop_heap [OF assms(1)])
        apply (rule for_loop_heap [OF assms(1)])
        apply (simp add: heap_write_def t)
        done
      then show ?thesis using True by simp
    next
      case False
      have "for_loop 0 ?C (\<lambda>c h.
                  heap_write (heap_write h (img_data output) (i * ?W * ?C + c)
                                (h (img_data input) ! (i * ?W * ?C + c)))
                    (img_data output) ((i * ?W + ?W - 1) * ?C + c)
                    (heap_write h (img_data output) (i * ?W * ?C + c)
                       (h (img_data input) ! (i * ?W * ?C + c))
                       (img_data input) ! ((i * ?W + ?W - 1) * ?C + c))) t
            = t(img_data output := ?ends i (t (img_data output)))"
        apply (rule for_loop_heap [OF assms(1)])
        apply (simp add: heap_write_def t assms(1))
        done
      then show ?thesis using False by simp
    qed
  qed
  also have "for_loop 0 ?H ?g (h (img_data output))
             = fill (border_bytes ?H ?W ?C) 100 (h (img_data output))"
    unfolding border_bytes_def
  proof (rule for_loop_fill)
    fix i t
    assume i: "i < ?H"
    show "?g i t
          = fill (if i = 0 \<or> i = ?H - 1
                  then \<Union>j\<in>{0..<?W}. \<Union>c\<in>{0..<?C}. {(i * ?W + j) * ?C + c}
                  else \<Union>c\<in>{0..<?C}. {(i * ?W) * ?C + c} \<union> {(i * ?W + ?W - 1) * ?C + c})
              100 t"
    proof (cases "i = 0 \<or> i = ?H - 1")
      case True
      have "?row i t = fill (\<Union>j\<in>{0..<?W}. \<Union>c\<in>{0..<?C}. {(i * ?W + j) * ?C + c}) 100 t"
        apply (rule for_loop_fill)
        apply (rule for_loop_fill)
        apply (simp add: assms(2) pixel_index_bound [OF i] update_fill)
        done
      then show ?thesis using True by simp
    next
      case False
      have l: "(i * ?W) * ?C + c < ?H * ?W * ?C" if "c < ?C" for c
        using pixel_index_bound [OF i assms(3) that] by simp
      have r: "(i * ?W + ?W - 1) * ?C + c < ?H * ?W * ?C" if "c < ?C" for c
      proof -
        have "?W - 1 < ?W" using assms(3) by simp
        from pixel_index_bound [OF i this that] show ?thesis
          using assms(3) by (simp add: add_diff_assoc)
      qed
      have "?ends i t
            = fill (\<Union>c\<in>{0..<?C}. {(i * ?W) * ?C + c} \<union> {(i * ?W + ?W - 1) * ?C + c}) 100 t"
      proof (rule for_loop_fill)
        fix c u
        assume c: "c < ?C"
        have "?d ! ((i * ?W) * ?C + c) = 100" "?d ! ((i * ?W + ?W - 1) * ?C + c) = 100"
          unfolding assms(2) using l [OF c] r [OF c] by (simp_all only: nth_replicate)
        then show "u[(i * ?W) * ?C + c := ?d ! ((i * ?W) * ?C + c),
                     (i * ?W + ?W - 1) * ?C + c := ?d ! ((i * ?W + ?W - 1) * ?C + c)]
                   = fill ({(i * ?W) * ?C + c} \<union> {(i * ?W + ?W - 1) * ?C + c}) 100 u"
          by (simp only: update_fill fill_fill)
      qed
      then show ?thesis using False by simp
    qed
  qed
  finally show ?thesis .
qed

lemma row_bytes_I:
  fixes i j c width channels :: nat
  assumes "j \<in> J" "c < channels"
  shows "(i * width + j) * channels + c
         \<in> (\<Union>j\<in>J. \<Union>c\<in>{0..<channels}. {(i * width + j) * channels + c})"
proof (rule UN_I [OF assms(1)])
  show "(i * width + j) * channels + c \<in> (\<Union>c\<in>{0..<channels}. {(i * width + j) * channels + c})"
  proof (rule UN_I [of c])
    show "c \<in> {0..<channels}" using assms(2) by simp
  qed simp
qed

lemma all_bytes_covered:
  assumes "k < height * width * channels"
  shows "k \<in> interior_bytes height width channels \<union> border_bytes height width channels"
proof -
  have pos: "0 < channels" "0 < width" using assms by (auto intro: Nat.gr0I)
  define c where "c = k mod channels"
  define p where "p = k div channels"
  define i where "i = p div width"
  define j where "j = p mod width"
  have c: "c < channels" using pos by (simp add: c_def)
  have j: "j < width" using pos by (simp add: j_def)
  have "p < height * width"
    using assms pos by (simp add: p_def less_mult_imp_div_less)
  then have i: "i < height"
    using pos by (simp add: i_def less_mult_imp_div_less)
  have k: "k = (i * width + j) * channels + c"
    by (simp add: c_def p_def i_def j_def)
  show ?thesis
  proof (cases "i = 0 \<or> i = height - 1")
    case True
    have "k \<in> (\<Union>j\<in>{0..<width}. \<Union>c\<in>{0..<channels}. {(i * width + j) * channels + c})"
      unfolding k using j c by (intro row_bytes_I) simp_all
    then have "k \<in> (if i = 0 \<or> i = height - 1
                    then \<Union>j\<in>{0..<width}. \<Union>c\<in>{0..<channels}. {(i * width + j) * channels + c}
                    else \<Union>c\<in>{0..<channels}.
                           {(i * width) * channels + c} \<union> {(i * width + width - 1) * channels + c})"
      using True by simp
    then have "k \<in> border_bytes height width channels"
      unfolding border_bytes_def using i by - (rule UN_I [of i], simp_all)
    then show ?thesis by simp
  next
    case False
    then have i': "1 \<le> i" "i < height - 1" using i by auto
    show ?thesis
    proof (cases "j = 0 \<or> j = width - 1")
      case True
      then have "k = (i * width) * channels + c \<or> k = (i * width + width - 1) * channels + c"
        using k pos by auto
      then have "k \<in> (\<Union>c\<in>{0..<channels}.
                           {(i * width) * channels + c} \<union> {(i * width + width - 1) * channels + c})"
        using c by - (rule UN_I [of c], auto)
      then have "k \<in> (if i = 0 \<or> i = height - 1
                    then \<Union>j\<in>{0..<width}. \<Union>c\<in>{0..<channels}. {(i * width + j) * channels + c}
                    else \<Union>c\<in>{0..<channels}.
                           {(i * width) * channels + c} \<union> {(i * width + width - 1) * channels + c})"
        using False by simp
      then have "k \<in> border_bytes height width channels"
        unfolding border_bytes_def using i by - (rule UN_I [of i], simp_all)
      then show ?thesis by simp
    next
      case False
      then have "1 \<le> j" "j < width - 1" using j by auto
      then have "k \<in> (\<Union>j\<in>{1..<width - 1}. \<Union>c\<in>{0..<channels}. {(i * width + j) * channels + c})"
        unfolding k using c by (intro row_bytes_I) simp_all
      then have "k \<in> interior_bytes height width channels"
        unfolding interior_bytes_def using i' by - (rule UN_I [of i], simp_all)
      then show ?thesis by simp
    qed
  qed
qed


lemma fill_all:
  assumes "\<And>k. k < length out \<Longrightarrow> k \<in> W"
  shows "fill W v out = replicate (length out) v"
  by (rule nth_equalityI) (simp_all add: length_fill nth_fill assms)

lemma gaussian_blur_filter_uniform:
  assumes "img_data input \<noteq> img_data output"
      and "h (img_data input)
           = replicate (img_height input * img_width input * img_channels input) 100"
      and "length (h (img_data output))
           = img_height input * img_width input * img_channels input"
      and "0 < img_width input"
  shows "gaussian_blur_filter input output thread_count h
         = h(img_data output :=
               replicate (img_height input * img_width input * img_channels input) 100)"
proof -
  let ?W = "img_width input" and ?C = "img_channels input" and ?H = "img_height input"
  let ?h1 = "h(img_data output := fill (interior_bytes ?H ?W ?C) 100 (h (img_data output)))"
  have in1: "?h1 (img_data input) = replicate (?H * ?W * ?C) 100"
    using assms(1,2) by simp
  have "gaussian_blur_filter input output thread_count h = copy_borders input output ?h1"
    unfolding gaussian_blur_filter_def Let_def
    by (simp only: blur_rows_uniform [of input "output" h, OF assms(1,2)])
  also have "\<dots> = ?h1(img_data output :=
                 fill (border_bytes ?H ?W ?C) 100 (?h1 (img_data output)))"
    by (rule copy_borders_uniform [of input "output" ?h1, OF assms(1) in1 assms(4)])
  also have "\<dots> = h(img_data output :=
                 fill (interior_bytes ?H ?W ?C \<union> border_bytes ?H ?W ?C) 100
                   (h (img_data output)))"
    by (simp add: fill_fill)
  also have "fill (interior_bytes ?H ?W ?C \<union> border_bytes ?H ?W ?C) 100 (h (img_data output))
             = replicate (?H * ?W * ?C) 100"
    using fill_all [of "h (img_data output)"
        "interior_bytes ?H ?W ?C \<union> border_bytes ?H ?W ?C" 100]
      all_bytes_covered [of _ ?H ?W ?C] assms(3)
    by simp
  finally show ?thesis .
qed

lemma sobel_edge_filter_uniform:
  assumes "img_data input \<noteq> img_data output"
      and "h (img_data input)
           = replicate (img_height input * img_width input * img_channels input) 100"
      and "0 < img_channels input"
  shows "sobel_edge_filter input output thread_count h
         = h(img_data output :=
               fill (interior_bytes (img_height input) (img_width input) (img_channels input)) 0
                 (h (img_data output)))"
proof -
  let ?W = "img_width input" and ?C = "img_channels input" and ?H = "img_height input"
  let ?d = "h (img_data input)"
  let ?g = "\<lambda>i j. for_loop 0 ?C (\<lambda>c (out :: byte list).
              out[(i * ?W + j) * ?C + c := edge_value_of (sobel_sums ?d ?W ?C i j)])"
  have "sobel_edge_filter input output thread_count h
        = h(img_data output :=
              for_loop 1 (?H - 1) (\<lambda>i. for_loop 1 (?W - 1) (?g i)) (h (img_data output)))"
    unfolding sobel_edge_filter_def Let_def
    apply (rule for_loop_heap [OF assms(1)])
    apply (rule for_loop_heap [OF assms(1)])
    apply (simp only:)
    apply (rule for_loop_heap [OF assms(1)])
    apply (simp add: heap_write_def)
    done
  also have "for_loop 1 (?H - 1) (\<lambda>i. for_loop 1 (?W - 1) (?g i)) (h (img_data output))
             = fill (interior_bytes ?H ?W ?C) 0 (h (img_data output))"
    unfolding interior_bytes_def
    apply (rule for_loop_fill)
    apply (rule for_loop_fill)
    apply (rule for_loop_fill)
    apply (simp add: assms(2) sobel_sums_replicate [OF _ _ _ _ assms(3)] sobel_sums_const_100
        update_fill)
    done
  finally show ?thesis .
qed

text \<open>
  Claim C6.  On an image whose bytes are all 100 (held in a buffer other than the output
  buffer), the blur filter leaves an output buffer equal to the input, whatever the output
  buffer held before, and the edge filter stores 0 in every channel of every interior
  pixel.
\<close>

theorem uniform_field_fixed_point:
  assumes "img_data input \<noteq> img_data output"
      and "h (img_data input)
           = replicate (img_height input * img_width input * img_channels input) 100"
      and "length (h (img_data output))
           = img_height input * img_width input * img_channels input"
      and "0 < img_width input" "0 < img_channels input"
  shows "gaussian_blur_filter input output thread_count h (img_data output) = h (img_data input) \<and>
         (\<forall>i j c. 1 \<le> i \<and> i < img_height input - 1 \<and> 1 \<le> j \<and> j < img_width input - 1 \<and>
                  c < img_channels input \<longrightarrow>
            sobel_edge_filter input output thread_count h (img_data output)
              ! ((i * img_width input + j) * img_channels input + c) = 0)"
proof (intro conjI allI impI)
  show "gaussian_blur_filter input output thread_count h (img_data output) = h (img_data input)"
    by (simp add: gaussian_blur_filter_uniform [of input "output" h, OF assms(1-4)] assms(2))
next
  fix i j c
  assume b: "1 \<le> i \<and> i < img_height input - 1 \<and> 1 \<le> j \<and> j < img_width input - 1 \<and>
             c < img_channels input"
  let ?k = "(i * img_width input + j) * img_channels input + c"
  have "?k \<in> (\<Union>j\<in>{1..<img_width input - 1}. \<Union>c\<in>{0..<img_channels input}.
                 {(i * img_width input + j) * img_channels input + c})"
    using b by (intro row_bytes_I) simp_all
  then have m: "?k \<in> interior_bytes (img_height input) (img_width input) (img_channels input)"
    unfolding interior_bytes_def using b by - (rule UN_I [of i], simp_all)
  have "i < img_height input" "j < img_width input" using b by auto
  then have "?k < length (h (img_data output))"
    unfolding assms(3) using b by (intro pixel_index_bound) simp_all
  then show "sobel_edge_filter input output thread_count h (img_data output) ! ?k = 0"
    using m by (simp add: sobel_edge_filter_uniform [of input "output" h, OF assms(1,2,5)] nth_fill)
qed

text \<open>A 3 by 3 image of one channel, all bytes 100, and a zeroed output buffer.\<close>

definition flat_input :: Image where
  "flat_input = \<lparr>img_data = 0, img_width = 3, img_height = 3, img_channels = 1\<rparr>"

definition flat_output :: Image where
  "flat_output = \<lparr>img_data = 1, img_width = 3, img_height = 3, img_channels = 1\<rparr>"

definition flat_heap :: heap where
  "flat_heap = (\<lambda>_. [])(0 := replicate 9 100, 1 := replicate 9 0)"

theorem uniform_field_fixed_point_witness:
  "gaussian_blur_filter flat_input flat_output 4 flat_heap (img_data flat_output)
     = replicate 9 100 \<and>
   sobel_edge_filter flat_input flat_output 4 flat_heap (img_data flat_output) ! 4 = 0"
proof -
  have a: "img_data flat_input \<noteq> img_data flat_output"
    by (simp add: flat_input_def flat_output_def)
  have b: "flat_heap (img_data flat_input)
           = replicate (img_height flat_input * img_width flat_input * img_channels flat_input) 100"
    by (simp add: flat_input_def flat_heap_def)
  have c: "length (flat_heap (img_data flat_output))
           = img_height flat_input * img_width flat_input * img_channels flat_input"
    by (simp add: flat_input_def flat_output_def flat_heap_def)
  have d: "0 < img_width flat_input" "0 < img_channels flat_input"
    by (simp_all add: flat_input_def)
  note t = uniform_field_fixed_point [of flat_input flat_output flat_heap 4, OF a b c d]
  have v: "flat_heap (img_data flat_input) = replicate 9 100"
    by (simp add: flat_input_def flat_heap_def)
  have i: "1 \<le> (1::nat) \<and> (1::nat) < img_height flat_input - 1 \<and> 1 \<le> (1::nat) \<and>
           (1::nat) < img_width flat_input - 1 \<and> (0::nat) < img_channels flat_input"
    by (simp add: flat_input_def)
  have k: "(1 * img_width flat_input + 1) * img_channels flat_input + 0 = 4"
    by (simp add: flat_input_def)
  note e = t [THEN conjunct2, rule_format, OF i]
  show ?thesis
  proof (rule conjI)
    show "gaussian_blur_filter flat_input flat_output 4 flat_heap (img_data flat_output)
          = replicate 9 100"
      using t [THEN conjunct1] unfolding v .
    show "sobel_edge_filter flat_input flat_output 4 flat_heap (img_data flat_output) ! 4 = 0"
      using e unfolding k .
  qed
qed

section \<open>Image borders under the edge filter of the shared-memory program\<close>

lemma fill_replicate: "fill W v (replicate n v) = replicate n v"
  by (rule nth_equalityI) (simp_all add: length_fill nth_fill)

lemma omp_main_edge_uniform:
  assumes "0 < channels"
  shows "omp_main ''edge'' thread_count width height channels
           (replicate (width * height * channels) 100)
         = Inr (replicate (width * height * channels) 0)"
proof -
  let ?input = "\<lparr>img_data = 0, img_width = width, img_height = height, img_channels = channels\<rparr>"
  let ?output = "\<lparr>img_data = 1, img_width = width, img_height = height, img_channels = channels\<rparr>"
  let ?h = "((\<lambda>_. [])(0 := replicate (width * height * channels) (0::byte),
                       0 := replicate (width * height * channels) 100,
                       1 := replicate (width * height * channels) 0)) :: heap"
  have n: "height * width * channels = width * height * channels" by simp
  have a: "img_data ?input \<noteq> img_data ?output" by simp
  have b: "?h (img_data ?input)
           = replicate (img_height ?input * img_width ?input * img_channels ?input) 100"
    by (simp add: n)
  have c: "0 < img_channels ?input" using assms by simp
  have "sobel_edge_filter ?input ?output thread_count ?h (img_data ?output)
        = replicate (width * height * channels) 0"
    unfolding sobel_edge_filter_uniform [of ?input ?output ?h, OF a b c]
    by (simp add: fill_replicate)
  then show ?thesis
    by (simp add: omp_main_def create_image_def)
qed

text \<open>
  Claim C2 at a 3 by 3 RGB image whose bytes are all 100, in the shared-memory program:
  \<open>sobel_edge_filter\<close> writes interior pixels only and has no border copy (the blur
  has one, lines 176 to 193), so the border of the output keeps the zeros of
  \<open>create_image\<close> while the input border is 100.
\<close>

theorem omp_edge_border_zeroed:
  "omp_main ''edge'' 4 3 3 3 (replicate 27 100) = Inr (replicate 27 0) \<and>
   replicate 27 (0::byte) ! 0 \<noteq> replicate 27 100 ! 0"
  using omp_main_edge_uniform [of 3 4 3 3] by simp

section \<open>More workers than rows\<close>

text \<open>
  Claim C8 at one row of three RGB pixels and two workers: rank 1 has no rows, its buffer
  has no bytes, and the halo exchange sends \<open>row_size\<close> bytes from it.
\<close>

theorem zero_row_band_out_of_bounds:
  "mpi_main ''blur'' 2 3 1 3 [10, 20, 30, 40, 50, 60, 70, 80, 90] = Inl OutOfBounds \<and>
   mpi_main ''edge'' 2 3 1 3 [10, 20, 30, 40, 50, 60, 70, 80, 90] = Inl OutOfBounds"
  by code_simp

text \<open>
  Claim C1 at two rows of three RGB pixels: one worker passes both rows through (they
  are the first and the last row of the image); with three workers rank 2 has no rows and
  the exchange reads outside its buffer, and rank 1 no longer treats the last row of the
  image as a boundary row.
\<close>

theorem partition_variance_blur:
  "mpi_main ''blur'' 1 3 2 3
     [10, 20, 30, 40, 50, 60, 70, 80, 90, 15, 25, 35, 45, 55, 65, 75, 85, 95]
   = Inr [10, 20, 30, 40, 50, 60, 70, 80, 90, 15, 25, 35, 45, 55, 65, 75, 85, 95] \<and>
   mpi_main ''blur'' 3 3 2 3
     [10, 20, 30, 40, 50, 60, 70, 80, 90, 15, 25, 35, 45, 55, 65, 75, 85, 95]
   = Inl OutOfBounds"
  by code_simp

section \<open>The halo rows after the exchange\<close>

lemma c_read_row:
  assumes "0 \<le> row_size" "0 \<le> i" "i < lh" "int (length band) = lh * row_size"
  shows "c_read band (i * row_size) row_size
         = Inr (take (nat row_size) (drop (nat (i * row_size)) band))"
proof -
  have "(i + 1) * row_size \<le> lh * row_size"
    using assms by (intro mult_right_mono) simp_all
  then have "i * row_size + row_size \<le> int (length band)"
    using assms(4) by (simp add: algebra_simps)
  moreover have "0 \<le> i * row_size" using assms by simp
  ultimately show ?thesis using assms(1) by (simp add: c_read_def)
qed

lemma posted_sends_ok:
  assumes "0 \<le> row_size" "1 \<le> lh" "int (length band) = lh * row_size"
  shows "posted_sends rank nprocs lh row_size band
         = Inr ((if 0 < rank
                 then [\<lparr>msg_dest = rank - 1, msg_tag = 0,
                        msg_data = take (nat row_size) band\<rparr>]
                 else []) @
                (if rank < nprocs - 1
                 then [\<lparr>msg_dest = rank + 1, msg_tag = 1,
                        msg_data = take (nat row_size) (drop (nat ((lh - 1) * row_size)) band)\<rparr>]
                 else []))"
proof -
  have a: "c_read band 0 row_size = Inr (take (nat row_size) band)"
    using c_read_row [OF assms(1), of 0 lh band] assms by simp
  have b: "c_read band ((lh - 1) * row_size) row_size
           = Inr (take (nat row_size) (drop (nat ((lh - 1) * row_size)) band))"
    using c_read_row [OF assms(1), of "lh - 1" lh band] assms by simp
  show ?thesis by (simp add: posted_sends_def bind_err_def a b)
qed

text \<open>
  What a rank holds after the exchange when its band and the bands of its neighbours have
  at least one row: the last row of its predecessor's band and the first row of its
  successor's band, and zeros where it has no such neighbour.
\<close>

lemma halo_exchange_value:
  assumes "0 \<le> rank" "rank < nprocs" "0 \<le> row_size"
      and "\<forall>r. 0 \<le> r \<and> r < nprocs \<and> rank - 1 \<le> r \<and> r \<le> rank + 1 \<longrightarrow>
             1 \<le> local_height r \<and> int (length (bands ! nat r)) = local_height r * row_size"
  shows "halo_exchange nprocs row_size local_height bands rank
         = Inr (if 0 < rank
                then take (nat row_size)
                       (drop (nat ((local_height (rank - 1) - 1) * row_size))
                          (bands ! nat (rank - 1)))
                else replicate (nat row_size) 0,
                if rank < nprocs - 1 then take (nat row_size) (bands ! nat (rank + 1))
                else replicate (nat row_size) 0)"
proof -
  let ?top = "take (nat row_size)
                (drop (nat ((local_height (rank - 1) - 1) * row_size)) (bands ! nat (rank - 1)))"
  let ?bot = "take (nat row_size) (bands ! nat (rank + 1))"
  let ?zero = "replicate (nat row_size) (0::byte)"
  have me: "1 \<le> local_height rank"
    "int (length (bands ! nat rank)) = local_height rank * row_size"
    using assms by simp_all
  have up: "1 \<le> local_height (rank - 1)"
    "int (length (bands ! nat (rank - 1))) = local_height (rank - 1) * row_size" if "0 < rank"
    using assms that by simp_all
  have dn: "1 \<le> local_height (rank + 1)"
    "int (length (bands ! nat (rank + 1))) = local_height (rank + 1) * row_size"
    if "rank < nprocs - 1"
    using assms that by simp_all
  have own: "\<exists>ms. posted_sends rank nprocs (local_height rank) row_size (bands ! nat rank) = Inr ms"
    by (simp add: posted_sends_ok [OF assms(3) me])
  have rtop: "receive (posted_sends (rank - 1) nprocs (local_height (rank - 1)) row_size
                (bands ! nat (rank - 1))) rank 1 = Inr ?top" if "0 < rank"
    using assms(2) by (simp add: posted_sends_ok [OF assms(3) up [OF that]] receive_def bind_err_def)
  have rbot: "receive (posted_sends (rank + 1) nprocs (local_height (rank + 1)) row_size
                (bands ! nat (rank + 1))) rank 0 = Inr ?bot" if "rank < nprocs - 1"
    using assms(1) by (simp add: posted_sends_ok [OF assms(3) dn [OF that]] receive_def bind_err_def)
  have ex: "halo_exchange nprocs row_size local_height bands rank
            = Inr (if 0 < rank then ?top else ?zero, if rank < nprocs - 1 then ?bot else ?zero)"
  proof -
    obtain ms where ms: "posted_sends rank nprocs (local_height rank) row_size (bands ! nat rank)
                         = Inr ms"
      using own by blast
    show ?thesis
    proof (cases "0 < rank")
      case True
      note t = rtop [OF True]
      show ?thesis
      proof (cases "rank < nprocs - 1")
        case True
        show ?thesis using \<open>0 < rank\<close> True t rbot [OF True] ms
          by (simp add: halo_exchange_def Let_def bind_err_def)
      next
        case False
        show ?thesis using \<open>0 < rank\<close> False t ms
          by (simp add: halo_exchange_def Let_def bind_err_def)
      qed
    next
      case False
      show ?thesis
      proof (cases "rank < nprocs - 1")
        case True
        show ?thesis using \<open>\<not> 0 < rank\<close> True rbot [OF True] ms
          by (simp add: halo_exchange_def Let_def bind_err_def)
      next
        case False
        show ?thesis using \<open>\<not> 0 < rank\<close> False ms
          by (simp add: halo_exchange_def Let_def bind_err_def)
      qed
    qed
  qed
  show ?thesis by (rule ex)
qed

text \<open>
  When the band of a rank and the bands of its neighbours have at least one row (and hold
  their rows, \<open>row_size\<close> bytes each), the exchange of the rank completes; both halo rows
  have \<open>row_size\<close> bytes; a rank with a predecessor holds in \<open>halo_top\<close> the bytes of
  the last row of the predecessor's band, and a rank with a successor holds in
  \<open>halo_bottom\<close> the bytes of the first row of the successor's band.
\<close>

theorem halo_exchange_rows:
  assumes "0 \<le> rank" "rank < nprocs" "0 \<le> row_size"
      and "\<forall>r. 0 \<le> r \<and> r < nprocs \<and> rank - 1 \<le> r \<and> r \<le> rank + 1 \<longrightarrow>
             1 \<le> local_height r \<and> int (length (bands ! nat r)) = local_height r * row_size"
  shows "\<exists>halo_top halo_bottom.
           halo_exchange nprocs row_size local_height bands rank = Inr (halo_top, halo_bottom) \<and>
           int (length halo_top) = row_size \<and> int (length halo_bottom) = row_size \<and>
           (0 < rank \<longrightarrow>
              (\<forall>k<nat row_size.
                 halo_top ! k
                 = bands ! nat (rank - 1) ! (nat ((local_height (rank - 1) - 1) * row_size) + k))) \<and>
           (rank < nprocs - 1 \<longrightarrow>
              (\<forall>k<nat row_size. halo_bottom ! k = bands ! nat (rank + 1) ! k))"
proof -
  let ?top = "take (nat row_size)
                (drop (nat ((local_height (rank - 1) - 1) * row_size)) (bands ! nat (rank - 1)))"
  let ?bot = "take (nat row_size) (bands ! nat (rank + 1))"
  let ?zero = "replicate (nat row_size) (0::byte)"
  have me: "1 \<le> local_height rank"
    "int (length (bands ! nat rank)) = local_height rank * row_size"
    using assms by simp_all
  have up: "1 \<le> local_height (rank - 1)"
    "int (length (bands ! nat (rank - 1))) = local_height (rank - 1) * row_size" if "0 < rank"
    using assms that by simp_all
  have dn: "1 \<le> local_height (rank + 1)"
    "int (length (bands ! nat (rank + 1))) = local_height (rank + 1) * row_size"
    if "rank < nprocs - 1"
    using assms that by simp_all
  have ex: "halo_exchange nprocs row_size local_height bands rank
            = Inr (if 0 < rank then ?top else ?zero, if rank < nprocs - 1 then ?bot else ?zero)"
    by (rule halo_exchange_value [OF assms])
  have ltop: "int (length ?top) = row_size" if "0 < rank"
  proof -
    have "(local_height (rank - 1) - 1) * row_size + row_size = local_height (rank - 1) * row_size"
      by (simp add: algebra_simps)
    moreover have "0 \<le> (local_height (rank - 1) - 1) * row_size"
      using up [OF that] assms(3) by simp
    ultimately show ?thesis using up [OF that] assms(3) by simp
  qed
  have lbot: "int (length ?bot) = row_size" if "rank < nprocs - 1"
  proof -
    have "1 * row_size \<le> local_height (rank + 1) * row_size"
      using dn [OF that] assms(3) by (intro mult_right_mono) simp_all
    then show ?thesis using dn [OF that] assms(3) by simp
  qed
  have ntop: "\<forall>k<nat row_size.
                ?top ! k = bands ! nat (rank - 1) ! (nat ((local_height (rank - 1) - 1) * row_size) + k)"
    if "0 < rank"
  proof -
    have "(local_height (rank - 1) - 1) * row_size \<le> local_height (rank - 1) * row_size"
      using assms(3) by (intro mult_right_mono) simp_all
    then have "nat ((local_height (rank - 1) - 1) * row_size) \<le> length (bands ! nat (rank - 1))"
      using up [OF that] by linarith
    then show ?thesis by simp
  qed
  have nbot: "\<forall>k<nat row_size. ?bot ! k = bands ! nat (rank + 1) ! k"
    by simp
  show ?thesis
  proof (intro exI conjI)
    show "halo_exchange nprocs row_size local_height bands rank
          = Inr (if 0 < rank then ?top else ?zero, if rank < nprocs - 1 then ?bot else ?zero)"
      by (rule ex)
    show "int (length (if 0 < rank then ?top else ?zero)) = row_size"
      using ltop assms(3) by (simp del: length_take)
    show "int (length (if rank < nprocs - 1 then ?bot else ?zero)) = row_size"
      using lbot assms(3) by (simp del: length_take)
    show "0 < rank \<longrightarrow>
          (\<forall>k<nat row_size.
             (if 0 < rank then ?top else ?zero) ! k
             = bands ! nat (rank - 1) ! (nat ((local_height (rank - 1) - 1) * row_size) + k))"
      using ntop by (simp del: nth_take)
    show "rank < nprocs - 1 \<longrightarrow>
          (\<forall>k<nat row_size.
             (if rank < nprocs - 1 then ?bot else ?zero) ! k = bands ! nat (rank + 1) ! k)"
      using nbot by (simp del: nth_take)
  qed
qed

text \<open>
  Three bands of two bytes per row, with 2, 1 and 1 rows: the middle rank receives the
  last row of the band above and the first row of the band below.
\<close>

definition three_bands :: "byte list list" where
  "three_bands = [[1, 2, 3, 4], [5, 6], [7, 8]]"

definition three_heights :: "int \<Rightarrow> int" where
  "three_heights r = (if r = 0 then 2 else 1)"

theorem halo_exchange_rows_witness:
  "halo_exchange 3 2 three_heights three_bands 1 = Inr ([3, 4], [7, 8])"
proof -
  have a: "(0::int) \<le> 1" "(1::int) < 3" "(0::int) \<le> 2" by simp_all
  have b: "\<forall>r. 0 \<le> r \<and> r < 3 \<and> 1 - 1 \<le> r \<and> r \<le> 1 + 1 \<longrightarrow>
             1 \<le> three_heights r \<and> int (length (three_bands ! nat r)) = three_heights r * 2"
  proof (intro allI impI)
    fix r :: int
    assume "0 \<le> r \<and> r < 3 \<and> 1 - 1 \<le> r \<and> r \<le> 1 + 1"
    then have "r = 0 \<or> r = 1 \<or> r = 2" by auto
    then show "1 \<le> three_heights r \<and> int (length (three_bands ! nat r)) = three_heights r * 2"
      by (auto simp: three_heights_def three_bands_def)
  qed
  from halo_exchange_rows [OF a b]
  obtain halo_top halo_bottom where
    e: "halo_exchange 3 2 three_heights three_bands 1 = Inr (halo_top, halo_bottom)"
    and lt: "int (length halo_top) = 2" and lb: "int (length halo_bottom) = 2"
    and t: "\<forall>k<nat 2. halo_top ! k
              = three_bands ! nat (1 - 1) ! (nat ((three_heights (1 - 1) - 1) * 2) + k)"
    and u: "\<forall>k<nat 2. halo_bottom ! k = three_bands ! nat (1 + 1) ! k"
    by auto
  have "halo_top ! 0 = 3" "halo_top ! 1 = 4"
    using t by (simp_all add: three_bands_def three_heights_def)
  then have top: "halo_top = [3, 4]"
    using lt by (intro nth_equalityI) (auto simp: less_Suc_eq numeral_2_eq_2)
  have "halo_bottom ! 0 = 7" "halo_bottom ! 1 = 8"
    using u by (simp_all add: three_bands_def numeral_2_eq_2)
  then have bot: "halo_bottom = [7, 8]"
    using lb by (intro nth_equalityI) (auto simp: less_Suc_eq numeral_2_eq_2)
  show ?thesis using e top bot by simp
qed

text \<open>
  Claim C7 at three ranks on an image of two rows of three bytes (the bands are those that
  \<open>scatterv\<close> hands out): rank 2 has no row, but it is the successor of rank 1 and has a
  predecessor, so it sends \<open>row_size\<close> bytes from its empty buffer (line 153).  The
  exchange of rank 1, which receives them as \<open>halo_bottom\<close>, and the exchange of rank 2
  read outside of a buffer.  With four ranks on three rows the exchange of rank 1, whose
  neighbours both have a row, gives rank 1 the rows that the claim states, and the exchange
  of rank 2 fails in the same way.
\<close>

theorem halo_exchange_zero_row_successor:
  "scatterv [1, 2, 3, 4, 5, 6] (sendcounts (compute_displs 2 3 1 3))
     (displs (compute_displs 2 3 1 3)) 3 = Inr [[1, 2, 3], [4, 5, 6], []] \<and>
   halo_exchange 3 3 (local_height_of 2 3) [[1, 2, 3], [4, 5, 6], []] 1 = Inl OutOfBounds \<and>
   halo_exchange 3 3 (local_height_of 2 3) [[1, 2, 3], [4, 5, 6], []] 2 = Inl OutOfBounds \<and>
   halo_exchange 4 3 (local_height_of 3 4) [[1, 2, 3], [4, 5, 6], [7, 8, 9], []] 1
     = Inr ([1, 2, 3], [7, 8, 9]) \<and>
   halo_exchange 4 3 (local_height_of 3 4) [[1, 2, 3], [4, 5, 6], [7, 8, 9], []] 2
     = Inl OutOfBounds"
  by code_simp

section \<open>Rounding errors of the floating-point operations\<close>

lemma fval_Fp: "fval (Fp m e) = real_of_int m * 2 powi e"
  by (simp add: fval_def)

lemma rne_small: "bitlen \<bar>mant x\<bar> \<le> int p \<Longrightarrow> rne p x = x"
  by (simp add: rne_def Let_def nat_le_iff)

lemma rne_error:
  assumes "0 \<le> mant x"
  shows "\<bar>fval (rne p x) - fval x\<bar> \<le> fval x / 2 ^ p \<and> 0 \<le> mant (rne p x)"
proof (cases "nat (bitlen \<bar>mant x\<bar>) \<le> p")
  case True
  then have "rne p x = x" by (simp add: rne_def Let_def)
  moreover have "0 \<le> fval x" using assms by (simp add: fval_def)
  ultimately show ?thesis using assms by simp
next
  case False
  define m where "m = mant x"
  define n where "n = nat (bitlen \<bar>m\<bar>)"
  define s where "s = n - p"
  define q where "q = m div 2 ^ s"
  define r where "r = m mod 2 ^ s"
  define q' where "q' = (if 2 ^ (s - 1) < r \<or> (r = 2 ^ (s - 1) \<and> odd q) then q + 1 else q)"
  have m0: "0 \<le> m" using assms by (simp add: m_def)
  have np: "p < n" using False by (simp add: n_def m_def)
  then have mpos: "0 < m" using m0 by (cases "m = 0") (auto simp: n_def)
  have s1: "1 \<le> s" "n = p + s" using np by (simp_all add: s_def)
  have abs: "\<bar>m\<bar> = m" using m0 by simp
  have res: "rne p x = Fp q' (expo x + int s)"
    using False mpos
    unfolding rne_def Let_def q'_def q_def r_def s_def n_def m_def
    by (simp add: abs_of_nonneg sgn_if)
  have split: "m = q * 2 ^ s + r"
    using div_mult_mod_eq [of m "2 ^ s"] by (simp add: q_def r_def)
  have r0: "0 \<le> r" "r < 2 ^ s" by (simp_all add: r_def)
  have q0: "0 \<le> q" using m0 by (simp add: q_def pos_imp_zdiv_nonneg_iff)
  have pw: "(2::int) ^ s = 2 * 2 ^ (s - 1)" using s1 by (cases s) simp_all
  have close: "\<bar>q' * 2 ^ s - m\<bar> \<le> 2 ^ (s - 1)"
    unfolding q'_def using split r0 pw by (auto simp: algebra_simps)
  have "bitlen m = int n" using mpos by (simp add: n_def abs bitlen_nonneg)
  moreover have "nat (int n - 1) = n - 1" by simp
  ultimately have "2 ^ (n - 1) \<le> m" using bitlen_bounds [OF mpos] by (simp del: One_nat_def)
  then have low: "2 ^ p * 2 ^ (s - 1) \<le> m"
    using s1 by (simp add: power_add [symmetric])
  have "real_of_int \<bar>q' * 2 ^ s - m\<bar> \<le> real_of_int (2 ^ (s - 1))"
    using close by (simp only: of_int_le_iff)
  then have e: "\<bar>real_of_int (q' * 2 ^ s) - real_of_int m\<bar> \<le> 2 ^ (s - 1)"
    by simp
  have "real_of_int (2 ^ p * 2 ^ (s - 1)) \<le> real_of_int m"
    using low by (simp only: of_int_le_iff)
  then have l: "(2::real) ^ p * 2 ^ (s - 1) \<le> real_of_int m"
    by simp
  have "fval (rne p x) = real_of_int (q' * 2 ^ s) * 2 powi expo x"
    by (simp add: res fval_def power_int_add)
  then have "\<bar>fval (rne p x) - fval x\<bar> = \<bar>real_of_int (q' * 2 ^ s) - real_of_int m\<bar> * 2 powi expo x"
    by (simp add: fval_def m_def [symmetric] left_diff_distrib [symmetric] abs_mult)
  also have "\<dots> \<le> 2 ^ (s - 1) * 2 powi expo x"
    using e by (intro mult_right_mono) simp_all
  also have "\<dots> \<le> (real_of_int m / 2 ^ p) * 2 powi expo x"
  proof (intro mult_right_mono)
    show "(2::real) ^ (s - 1) \<le> real_of_int m / 2 ^ p"
      using l by (simp add: field_simps)
  qed simp
  finally have "\<bar>fval (rne p x) - fval x\<bar> \<le> fval x / 2 ^ p"
    by (simp add: fval_def m_def)
  moreover have "0 \<le> q'" using q0 by (simp add: q'_def)
  ultimately show ?thesis by (simp add: res)
qed


lemma fp_mul_error:
  assumes "0 \<le> mant x" "0 \<le> mant y"
  shows "\<bar>fval (fp_mul p x y) - fval x * fval y\<bar> \<le> fval x * fval y / 2 ^ p \<and>
         0 \<le> mant (fp_mul p x y)"
proof -
  have "fval (Fp (mant x * mant y) (expo x + expo y)) = fval x * fval y"
    by (simp add: fval_def power_int_add)
  moreover have "0 \<le> mant (Fp (mant x * mant y) (expo x + expo y))"
    using assms by simp
  ultimately show ?thesis
    unfolding fp_mul_def using rne_error [of "Fp (mant x * mant y) (expo x + expo y)" p]
    by simp
qed

lemma power_int_align:
  assumes "e \<le> a"
  shows "(2::real) ^ nat (a - e) * 2 powi e = 2 powi a"
proof -
  define k where "k = nat (a - e)"
  have a: "a = int k + e" using assms by (simp add: k_def)
  have "(2::real) powi (int k + e) = 2 powi int k * 2 powi e" by (rule power_int_add) simp
  then show ?thesis unfolding k_def [symmetric] a by simp
qed

lemma fp_add_error:
  assumes "0 \<le> mant x" "0 \<le> mant y"
  shows "\<bar>fval (fp_add p x y) - (fval x + fval y)\<bar> \<le> (fval x + fval y) / 2 ^ p \<and>
         0 \<le> mant (fp_add p x y)"
proof -
  define e where "e = min (expo x) (expo y)"
  define z where "z = Fp (mant x * 2 ^ nat (expo x - e) + mant y * 2 ^ nat (expo y - e)) e"
  have le: "e \<le> expo x" "e \<le> expo y" by (simp_all add: e_def)
  have "fval z = real_of_int (mant x) * (2 ^ nat (expo x - e) * 2 powi e)
                 + real_of_int (mant y) * (2 ^ nat (expo y - e) * 2 powi e)"
    by (simp add: z_def fval_def algebra_simps)
  then have v: "fval z = fval x + fval y"
    by (simp only: power_int_align [OF le(1)] power_int_align [OF le(2)] fval_def)
  have m: "0 \<le> mant z" using assms by (simp add: z_def)
  have "fp_add p x y = rne p z" by (simp add: fp_add_def Let_def z_def e_def)
  then show ?thesis using rne_error [OF m, of p] v by simp
qed

lemma fp_of_int_byte: "fp_of_int 53 (uint (v :: byte)) = Fp (uint v) 0"
proof -
  have "uint v < 2 ^ 8" using uint_lt2p [of v] by simp
  then have "uint v < 2 ^ 53" by simp
  then have "bitlen \<bar>uint v\<bar> \<le> 53" by (simp add: bitlen_le_iff_power)
  then show ?thesis unfolding fp_of_int_def using rne_small [of "Fp (uint v) 0" 53] by simp
qed

lemma fp_trunc_floor:
  assumes "0 \<le> mant x"
  shows "fp_trunc x = \<lfloor>fval x\<rfloor>"
proof (cases "0 \<le> expo x")
  case True
  then have "fval x = real_of_int (mant x * 2 ^ nat (expo x))"
    by (simp add: fval_def power_int_def)
  then show ?thesis using True by (simp add: fp_trunc_def del: of_int_mult of_int_power)
next
  case False
  define k where "k = nat (- expo x)"
  have e: "expo x = - int k" using False by (simp add: k_def)
  have "fval x = real_of_int (mant x) / real_of_int (2 ^ k)"
    by (simp add: fval_def e power_int_minus field_simps)
  then have "\<lfloor>fval x\<rfloor> = mant x div 2 ^ k"
    by (simp only: floor_divide_of_int_eq)
  moreover have "fp_trunc x = mant x div 2 ^ k"
    using False assms by (cases "mant x = 0") (simp_all add: fp_trunc_def k_def sgn_if)
  ultimately show ?thesis by simp
qed


text \<open>
  The gray value as the specification words it: the floor of the exact real number
  \<open>0.299 R + 0.587 G + 0.114 B\<close>.
\<close>

definition gray_spec :: "byte \<Rightarrow> byte \<Rightarrow> byte \<Rightarrow> int" where
  "gray_spec r g b =
     \<lfloor>0.299 * real_of_int (uint r) + 0.587 * real_of_int (uint g)
        + 0.114 * real_of_int (uint b)\<rfloor>"

lemma fval_consts:
  "fval c_0299 = 5386305154335113 / 2 ^ 54"
  "fval c_0587 = 2643612981266481 / 2 ^ 52"
  "fval c_0114 = 8214565720323785 / 2 ^ 56"
  by (simp_all add: fval_def c_0299_def c_0587_def c_0114_def power_int_minus field_simps)

text \<open>
  The double-precision sum stays within \<open>1 / 2 ^ 43\<close> of the exact weighted sum, which is
  a multiple of one thousandth: its truncation is the exact floor unless the exact sum is
  an integer, where it can be one less.
\<close>

lemma rel_bound:
  fixes x y c :: real
  assumes "\<bar>x - y\<bar> \<le> y / 2 ^ 53" "y \<le> c"
  shows "y - c / 9007199254740992 \<le> x \<and> x \<le> y + c / 9007199254740992"
proof -
  have "y / 2 ^ 53 \<le> c / 2 ^ 53" using assms(2) by (intro divide_right_mono) simp_all
  then have "\<bar>x - y\<bar> \<le> c / 9007199254740992" using assms(1) by simp
  then show ?thesis unfolding abs_le_iff by linarith
qed

lemma gray_sum_close:
  fixes r g b :: byte
  defines "A \<equiv> 0.299 * real_of_int (uint r) + 0.587 * real_of_int (uint g)
                 + 0.114 * real_of_int (uint b)"
  shows "\<bar>fval (gray_sum r g b) - A\<bar> \<le> 1 / 2 ^ 43 \<and> 0 \<le> mant (gray_sum r g b)"
proof -
  define R where "R = real_of_int (uint r)"
  define G where "G = real_of_int (uint g)"
  define B where "B = real_of_int (uint b)"
  have bnd: "0 \<le> R" "R \<le> 255" "0 \<le> G" "G \<le> 255" "0 \<le> B" "B \<le> 255"
    using uint_lt2p [of r] uint_lt2p [of g] uint_lt2p [of b]
    by (simp_all add: R_def G_def B_def del: of_int_uint)
  define x1 where "x1 = fp_mul 53 c_0299 (fp_of_int 53 (uint r))"
  define x2 where "x2 = fp_mul 53 c_0587 (fp_of_int 53 (uint g))"
  define x3 where "x3 = fp_mul 53 c_0114 (fp_of_int 53 (uint b))"
  define s1 where "s1 = fp_add 53 x1 x2"
  define d1 where "d1 = 5386305154335113 / 2 ^ 54 * R"
  define d2 where "d2 = 2643612981266481 / 2 ^ 52 * G"
  define d3 where "d3 = 8214565720323785 / 2 ^ 56 * B"
  have cm: "0 \<le> mant c_0299" "0 \<le> mant c_0587" "0 \<le> mant c_0114"
    by (simp_all add: c_0299_def c_0587_def c_0114_def)
  have bm: "0 \<le> mant (Fp (uint r) 0)" "0 \<le> mant (Fp (uint g) 0)" "0 \<le> mant (Fp (uint b) 0)"
    by simp_all
  have bv: "fval (Fp (uint r) 0) = R" "fval (Fp (uint g) 0) = G" "fval (Fp (uint b) 0) = B"
    by (simp_all add: fval_def R_def G_def B_def del: of_int_uint)
  have e1: "\<bar>fval x1 - d1\<bar> \<le> d1 / 2 ^ 53" and m1: "0 \<le> mant x1"
    using fp_mul_error [OF cm(1) bm(1), of 53]
    by (simp_all add: x1_def fp_of_int_byte fval_consts bv d1_def)
  have e2: "\<bar>fval x2 - d2\<bar> \<le> d2 / 2 ^ 53" and m2: "0 \<le> mant x2"
    using fp_mul_error [OF cm(2) bm(2), of 53]
    by (simp_all add: x2_def fp_of_int_byte fval_consts bv d2_def)
  have e3: "\<bar>fval x3 - d3\<bar> \<le> d3 / 2 ^ 53" and m3: "0 \<le> mant x3"
    using fp_mul_error [OF cm(3) bm(3), of 53]
    by (simp_all add: x3_def fp_of_int_byte fval_consts bv d3_def)
  have e4: "\<bar>fval s1 - (fval x1 + fval x2)\<bar> \<le> (fval x1 + fval x2) / 2 ^ 53"
    and m4: "0 \<le> mant s1"
    using fp_add_error [OF m1 m2, of 53] by (simp_all add: s1_def)
  have e5: "\<bar>fval (gray_sum r g b) - (fval s1 + fval x3)\<bar> \<le> (fval s1 + fval x3) / 2 ^ 53"
    and m5: "0 \<le> mant (gray_sum r g b)"
    using fp_add_error [OF m4 m3, of 53]
    by (simp_all add: gray_sum_def s1_def x1_def x2_def x3_def)
  have c1: "299 / 1000 * R - 255 / 36028797018963968 \<le> d1"
           "d1 \<le> 299 / 1000 * R + 255 / 36028797018963968"
    using bnd(1,2) by (simp_all add: d1_def)
  have c2: "587 / 1000 * G - 255 / 18014398509481984 \<le> d2"
           "d2 \<le> 587 / 1000 * G + 255 / 18014398509481984"
    using bnd(3,4) by (simp_all add: d2_def)
  have c3: "114 / 1000 * B - 255 / 144115188075855872 \<le> d3"
           "d3 \<le> 114 / 1000 * B + 255 / 144115188075855872"
    using bnd(5,6) by (simp_all add: d3_def)
  have u1: "d1 \<le> 77" using c1(2) bnd(2) by linarith
  have u2: "d2 \<le> 150" using c2(2) bnd(4) by linarith
  have u3: "d3 \<le> 30" using c3(2) bnd(6) by linarith
  note r1 = rel_bound [OF e1 u1]
  note r2 = rel_bound [OF e2 u2]
  note r3 = rel_bound [OF e3 u3]
  have u4: "fval x1 + fval x2 \<le> 228" using r1 r2 u1 u2 by linarith
  note r4 = rel_bound [OF e4 u4]
  have u5: "fval s1 + fval x3 \<le> 260" using r4 r3 u4 u3 by linarith
  note r5 = rel_bound [OF e5 u5]
  have "fval (gray_sum r g b) - (299 / 1000 * R + 587 / 1000 * G + 114 / 1000 * B)
          \<le> 1 / 8796093022208"
       "(299 / 1000 * R + 587 / 1000 * G + 114 / 1000 * B) - fval (gray_sum r g b)
          \<le> 1 / 8796093022208"
    using r1 r2 r3 r4 r5 c1 c2 c3 by linarith+
  then have "\<bar>fval (gray_sum r g b) - (299 / 1000 * R + 587 / 1000 * G + 114 / 1000 * B)\<bar>
             \<le> 1 / 8796093022208"
    unfolding abs_le_iff by linarith
  moreover have "(1::real) / 8796093022208 = 1 / 2 ^ 43" by simp
  moreover have "299 / 1000 * R + 587 / 1000 * G + 114 / 1000 * B
                 = 0.299 * R + 0.587 * G + 0.114 * B" by simp
  ultimately have "\<bar>fval (gray_sum r g b) - (0.299 * R + 0.587 * G + 0.114 * B)\<bar>
                   \<le> 1 / 2 ^ 43"
    by (simp only:)
  then show ?thesis using m5 unfolding A_def R_def G_def B_def by blast
qed


lemma gray_of_bounds:
  fixes r g b :: byte
  defines "k \<equiv> 299 * uint r + 587 * uint g + 114 * uint b"
  shows "gray_spec r g b = k div 1000 \<and>
         k div 1000 - 1 \<le> uint (gray_of r g b) \<and> uint (gray_of r g b) \<le> k div 1000 \<and>
         (k mod 1000 \<noteq> 0 \<longrightarrow> uint (gray_of r g b) = k div 1000)"
proof -
  define A where "A = 0.299 * real_of_int (uint r) + 0.587 * real_of_int (uint g)
                      + 0.114 * real_of_int (uint b)"
  define S where "S = fval (gray_sum r g b)"
  define f where "f = k div 1000"
  define m where "m = k mod 1000"
  have Ak: "A = real_of_int k / real_of_int 1000"
    unfolding A_def k_def by (simp del: of_int_uint)
  have spec: "gray_spec r g b = f"
    unfolding gray_spec_def A_def [symmetric] Ak f_def by (simp only: floor_divide_of_int_eq)
  have km: "k = f * 1000 + m" "0 \<le> m" "m \<le> 999"
    by (simp_all add: f_def m_def)
  have "real_of_int k = real_of_int (f * 1000 + m)" using km(1) by simp
  then have Af: "A = real_of_int f + real_of_int m / 1000"
    unfolding Ak by simp
  have mr: "0 \<le> real_of_int m" "real_of_int m \<le> 999"
    using km(2,3) by simp_all
  have kb: "0 \<le> k" "k \<le> 255000"
    using uint_lt2p [of r] uint_lt2p [of g] uint_lt2p [of b] by (simp_all add: k_def)
  have fb: "0 \<le> f" "f \<le> 255"
  proof -
    show "0 \<le> f" using kb(1) by (simp add: f_def pos_imp_zdiv_nonneg_iff)
    have "k div 1000 \<le> 255000 div 1000" using kb(2) by (intro zdiv_mono1) simp_all
    then show "f \<le> 255" by (simp add: f_def)
  qed
  have cl: "\<bar>S - A\<bar> \<le> 1 / 2 ^ 43" and mp: "0 \<le> mant (gray_sum r g b)"
    using gray_sum_close [of r g b] by (simp_all add: S_def A_def)
  have "(1::real) / 2 ^ 43 \<le> 1 / 2000" by simp
  then have d: "A - 1 / 2000 \<le> S" "S \<le> A + 1 / 2000"
    using cl unfolding abs_le_iff by linarith+
  have S0: "0 \<le> S" using mp by (simp add: S_def fval_def)
  have T: "fp_trunc (gray_sum r g b) = \<lfloor>S\<rfloor>"
    using fp_trunc_floor [OF mp] by (simp add: S_def)
  have lo: "f - 1 \<le> \<lfloor>S\<rfloor>"
  proof -
    have "real_of_int (f - 1) \<le> S" using d(1) Af mr by simp
    then show ?thesis by (simp only: le_floor_iff)
  qed
  have hi: "\<lfloor>S\<rfloor> \<le> f"
  proof -
    have "S < real_of_int (f + 1)" using d(2) Af mr by simp
    then have "\<lfloor>S\<rfloor> < f + 1" by (simp only: floor_less_iff)
    then show ?thesis by simp
  qed
  have ex: "\<lfloor>S\<rfloor> = f" if "m \<noteq> 0"
  proof -
    have "1 \<le> m" using that km(2) by simp
    then have "1 \<le> real_of_int m" by simp
    then have "real_of_int f \<le> S" using d(1) Af by simp
    then have "f \<le> \<lfloor>S\<rfloor>" by (simp only: le_floor_iff)
    then show ?thesis using hi by simp
  qed
  have nonneg: "0 \<le> \<lfloor>S\<rfloor>" using S0 by simp
  have "\<lfloor>S\<rfloor> < 256" using hi fb by linarith
  then have u: "uint (gray_of r g b) = \<lfloor>S\<rfloor>"
    using nonneg by (simp add: gray_of_def to_uchar_def T uint_word_of_int take_bit_eq_mod)
  show ?thesis
    unfolding spec u using lo hi ex by (simp add: f_def m_def)
qed

lemma gray_of_111: "gray_of 1 1 1 = 0"
  by code_simp

lemma gray_spec_111: "gray_spec 1 1 1 = 1"
  by (simp add: gray_spec_def)

section \<open>Grayscale: the bytes written\<close>

lemma for_loop_blocks:
  fixes C :: nat
  assumes len: "\<And>p t. length (body p t) = length t"
      and frame: "\<And>p t k. k < length t \<Longrightarrow> k div C \<noteq> p \<Longrightarrow> body p t ! k = t ! k"
      and own: "\<And>p t k. p < n \<Longrightarrow> k < length t \<Longrightarrow> length t = length s \<Longrightarrow> k div C = p \<Longrightarrow>
                  (\<forall>k'<length t. k' div C = p \<longrightarrow> t ! k' = s ! k') \<Longrightarrow> body p t ! k = V k"
  shows "\<forall>k<length s. for_loop 0 n body s ! k = (if k div C < n then V k else s ! k)"
proof -
  let ?P = "\<lambda>m t. length t = length s \<and>
                    (\<forall>k<length s. t ! k = (if k div C < m then V k else s ! k))"
  have "?P n (for_loop 0 n body s)"
  proof (rule for_loop_invariant [where P = ?P])
    show "?P 0 s" by simp
  next
    fix i t
    assume i: "i < n" and P: "?P i t"
    have l: "length (body i t) = length s" using P by (simp add: len)
    have "body i t ! k = (if k div C < Suc i then V k else s ! k)" if k: "k < length s" for k
    proof (cases "k div C = i")
      case True
      have "\<forall>k'<length t. k' div C = i \<longrightarrow> t ! k' = s ! k'" using P by simp
      then have "body i t ! k = V k"
        using own [OF i _ _ True] k P by simp
      then show ?thesis using True by simp
    next
      case False
      then have "body i t ! k = t ! k" using frame k P by simp
      then show ?thesis using P k False by (simp add: less_Suc_eq)
    qed
    then show "?P (Suc i) (body i t)" using l by simp
  qed simp
  then show ?thesis by simp
qed

text \<open>
  The pixel body of the grayscale filters on buffers: it reads the pixel at \<open>idx\<close> of
  \<open>d\<close> and writes the pixel at \<open>idx\<close> of \<open>out\<close>.
\<close>

definition gray_px :: "byte list \<Rightarrow> nat \<Rightarrow> nat \<Rightarrow> byte list \<Rightarrow> byte list" where
  "gray_px d channels idx out =
     (let r = d ! idx;
          g = (if 1 < channels then d ! (idx + 1) else r);
          b = (if 2 < channels then d ! (idx + 2) else r);
          gray = gray_of r g b;
          out = out[idx := gray];
          out = (if 1 < channels then out[idx + 1 := gray] else out);
          out = (if 2 < channels then out[idx + 2 := gray] else out)
      in if 3 < channels then out[idx + 3 := d ! (idx + 3)] else out)"

text \<open>The byte that the grayscale filter leaves at position \<open>k\<close>.\<close>

definition gray_out :: "byte list \<Rightarrow> byte list \<Rightarrow> nat \<Rightarrow> nat \<Rightarrow> byte" where
  "gray_out d s channels k =
     (let idx = (k div channels) * channels;
          r = d ! idx;
          g = (if 1 < channels then d ! (idx + 1) else r);
          b = (if 2 < channels then d ! (idx + 2) else r)
      in if k mod channels < 3 then gray_of r g b
         else if k mod channels = 3 then d ! k else s ! k)"

lemma length_gray_px: "length (gray_px d channels idx out) = length out"
  by (simp add: gray_px_def Let_def)

lemma block_div:
  fixes p c C :: nat
  assumes "c < C"
  shows "(p * C + c) div C = p" "(p * C + c) mod C = c"
  using assms by simp_all

lemma nth_gray_px:
  assumes "k < length out"
  shows "gray_px d channels idx out ! k =
     (if k = idx + 3 \<and> 3 < channels then d ! (idx + 3)
      else if k = idx \<or> (k = idx + 1 \<and> 1 < channels) \<or> (k = idx + 2 \<and> 2 < channels)
      then gray_of (d ! idx) (if 1 < channels then d ! (idx + 1) else d ! idx)
             (if 2 < channels then d ! (idx + 2) else d ! idx)
      else out ! k)"
  using assms by (auto simp: gray_px_def Let_def nth_list_update)

lemma gray_px_frame:
  assumes "k div channels \<noteq> p" "0 < channels" "k < length out"
  shows "gray_px d channels (p * channels) out ! k = out ! k"
proof -
  have "k \<noteq> p * channels + c" if "c < channels" for c
    using assms(1) block_div(1) [OF that, of p] by auto
  from this [of 0] this [of 1] this [of 2] this [of 3] assms(2)
  show ?thesis unfolding nth_gray_px [OF assms(3)] by auto
qed

lemma gray_px_own:
  assumes "k div channels = p" "k < length out" "0 < channels"
      and "d' ! (p * channels) = d ! (p * channels)"
      and "1 < channels \<Longrightarrow> d' ! (p * channels + 1) = d ! (p * channels + 1)"
      and "2 < channels \<Longrightarrow> d' ! (p * channels + 2) = d ! (p * channels + 2)"
      and "3 < channels \<Longrightarrow> d' ! (p * channels + 3) = d ! (p * channels + 3)"
      and "out ! k = s ! k"
  shows "gray_px d' channels (p * channels) out ! k = gray_out d s channels k"
proof -
  define c where "c = k mod channels"
  have k: "k = p * channels + c"
    using div_mult_mod_eq [of k channels] assms(1) by (simp add: c_def)
  have c: "c < channels" using assms(3) by (simp add: c_def)
  have m: "k mod channels = c" by (simp add: c_def)
  have d: "k div channels = p" by (rule assms(1))
  consider "c = 0" | "c = 1" | "c = 2" | "c = 3" | "4 \<le> c" by linarith
  then show ?thesis
  proof cases
    case 1
    then show ?thesis using assms(2-8) c unfolding nth_gray_px [OF assms(2)] gray_out_def Let_def m d
      by (simp add: k)
  next
    case 2
    then show ?thesis using assms(2-8) c unfolding nth_gray_px [OF assms(2)] gray_out_def Let_def m d
      by (simp add: k)
  next
    case 3
    then show ?thesis using assms(2-8) c unfolding nth_gray_px [OF assms(2)] gray_out_def Let_def m d
      by (simp add: k)
  next
    case 4
    then show ?thesis using assms(2-8) c unfolding nth_gray_px [OF assms(2)] gray_out_def Let_def m d
      by (simp add: k)
  next
    case 5
    then show ?thesis using assms(2-8) c unfolding nth_gray_px [OF assms(2)] gray_out_def Let_def m d
      by (simp add: k)
  qed
qed


lemma grayscale_body_heap:
  assumes "img_data input \<noteq> img_data output"
  shows "grayscale_body input output i j t
         = t(img_data output :=
               gray_px (t (img_data input)) (img_channels input)
                 ((i * img_width input + j) * img_channels input) (t (img_data output)))"
  using assms by (simp add: grayscale_body_def gray_px_def heap_write_def Let_def)

lemma grayscale_filter_heap:
  assumes "img_data input \<noteq> img_data output"
  shows "grayscale_filter input output thread_count h
         = h(img_data output :=
               for_loop 0 (img_height input * img_width input)
                 (\<lambda>p. gray_px (h (img_data input)) (img_channels input) (p * img_channels input))
                 (h (img_data output)))"
proof -
  let ?W = "img_width input" and ?C = "img_channels input" and ?H = "img_height input"
  let ?f = "\<lambda>p. gray_px (h (img_data input)) ?C (p * ?C)"
  have "grayscale_filter input output thread_count h
        = h(img_data output :=
              for_loop 0 ?H (\<lambda>i. for_loop 0 ?W (\<lambda>j. ?f (i * ?W + j))) (h (img_data output)))"
    unfolding grayscale_filter_def
    apply (rule for_loop_heap [OF assms])
    apply (rule for_loop_heap [OF assms])
    apply (simp add: grayscale_body_heap [OF assms])
    done
  then show ?thesis
    by (simp only: for_loop_nested_flat [of ?H ?W ?f])
qed

lemma grayscale_filter_nth:
  assumes "img_data input \<noteq> img_data output"
      and "length (h (img_data output))
           = img_height input * img_width input * img_channels input"
      and "k < img_height input * img_width input * img_channels input"
  shows "grayscale_filter input output thread_count h (img_data output) ! k
         = gray_out (h (img_data input)) (h (img_data output)) (img_channels input) k"
proof -
  let ?W = "img_width input" and ?C = "img_channels input" and ?H = "img_height input"
  let ?d = "h (img_data input)" and ?s = "h (img_data output)"
  have C: "0 < ?C" using assms(3) by (auto intro: Nat.gr0I)
  have kd: "k div ?C < ?H * ?W"
    using assms(3) C by (simp add: less_mult_imp_div_less)
  have "\<forall>k<length ?s. for_loop 0 (?H * ?W) (\<lambda>p. gray_px ?d ?C (p * ?C)) ?s ! k
          = (if k div ?C < ?H * ?W then gray_out ?d ?s ?C k else ?s ! k)"
  proof (rule for_loop_blocks)
    show "length (gray_px ?d ?C (p * ?C) t) = length t" for p t
      by (rule length_gray_px)
    show "gray_px ?d ?C (p * ?C) t ! k = t ! k" if "k < length t" "k div ?C \<noteq> p" for p t k
      using that C by (intro gray_px_frame) simp_all
    show "gray_px ?d ?C (p * ?C) t ! k = gray_out ?d ?s ?C k"
      if "k < length t" "k div ?C = p"
        "\<forall>k'<length t. k' div ?C = p \<longrightarrow> t ! k' = ?s ! k'" for p t k
      using that C by (intro gray_px_own) simp_all
  qed
  then show ?thesis
    using assms(2,3) kd by (simp add: grayscale_filter_heap [OF assms(1)])
qed

lemma length_grayscale_body_mpi:
  "length (grayscale_body_mpi width channels i j t) = length t"
  by (auto simp: grayscale_body_mpi_def Let_def)

lemma grayscale_body_mpi_px:
  "grayscale_body_mpi width channels i j t
   = gray_px t channels ((i * width + j) * channels) t"
proof (rule nth_equalityI)
  show "length (grayscale_body_mpi width channels i j t)
        = length (gray_px t channels ((i * width + j) * channels) t)"
    by (simp add: length_grayscale_body_mpi length_gray_px)
next
  fix k
  assume "k < length (grayscale_body_mpi width channels i j t)"
  then have k: "k < length t" by (simp add: length_grayscale_body_mpi)
  show "grayscale_body_mpi width channels i j t ! k
        = gray_px t channels ((i * width + j) * channels) t ! k"
    unfolding nth_gray_px [OF k] using k
    by (auto simp: grayscale_body_mpi_def Let_def nth_list_update)
qed

lemma grayscale_filter_mpi_nth:
  assumes "length band = local_height * width * channels"
      and "k < local_height * width * channels"
  shows "grayscale_filter_mpi band local_height width channels ! k
         = gray_out band band channels k"
proof -
  have C: "0 < channels" using assms(2) by (auto intro: Nat.gr0I)
  have kd: "k div channels < local_height * width"
    using assms(2) C by (simp add: less_mult_imp_div_less)
  have flat: "grayscale_filter_mpi band local_height width channels
              = for_loop 0 (local_height * width) (\<lambda>p t. gray_px t channels (p * channels) t) band"
    unfolding grayscale_filter_mpi_def grayscale_body_mpi_px
    by (rule for_loop_nested_flat [of local_height width "\<lambda>p t. gray_px t channels (p * channels) t"])
  have "\<forall>k<length band.
          for_loop 0 (local_height * width) (\<lambda>p t. gray_px t channels (p * channels) t) band ! k
          = (if k div channels < local_height * width then gray_out band band channels k
             else band ! k)"
  proof (rule for_loop_blocks)
    show "length (gray_px t channels (p * channels) t) = length t" for p t
      by (rule length_gray_px)
    show "gray_px t channels (p * channels) t ! k = t ! k"
      if "k < length t" "k div channels \<noteq> p" for p t k
      using that C by (intro gray_px_frame) simp_all
    show "gray_px t channels (p * channels) t ! k = gray_out band band channels k"
      if p: "p < local_height * width" and k: "k < length t" and l: "length t = length band"
        and d: "k div channels = p"
        and a: "\<forall>k'<length t. k' div channels = p \<longrightarrow> t ! k' = band ! k'" for p t k
    proof -
      have r: "t ! (p * channels + c) = band ! (p * channels + c)" if c: "c < channels" for c
      proof -
        have "p * channels + c < Suc p * channels" using c by simp
        also have "\<dots> \<le> (local_height * width) * channels"
          using p by (intro mult_le_mono1) simp
        finally have "p * channels + c < length t" using l assms(1) by simp
        then show ?thesis using a block_div(1) [OF c, of p] by simp
      qed
      show ?thesis
        using r [of 0] r [of 1] r [of 2] r [of 3] C k d a
        by (intro gray_px_own) simp_all
    qed
  qed
  then show ?thesis using assms kd by (simp add: flat)
qed

text \<open>
  Claim C4 as stated asks for \<open>gray_spec\<close>.  At the pixel (1, 1, 1) the exact sum is 1,
  the double-precision sum is just below 1, and both programs write 0.
\<close>

theorem grayscale_floor_counterexample:
  "gray_spec 1 1 1 = 1 \<and> uint (gray_of 1 1 1) = 0 \<and>
   omp_main ''grayscale'' 4 1 1 3 [1, 1, 1] = Inr [0, 0, 0] \<and>
   mpi_main ''grayscale'' 1 1 1 3 [1, 1, 1] = Inr [0, 0, 0]"
proof (intro conjI)
  show "gray_spec 1 1 1 = 1" by (simp add: gray_spec_def)
  show "uint (gray_of 1 1 1) = 0" by (simp add: gray_of_111)
  show "omp_main ''grayscale'' 4 1 1 3 [1, 1, 1] = Inr [0, 0, 0]"
    by (simp add: omp_main_def create_image_def grayscale_filter_def for_loop_def
        grayscale_body_def heap_write_def Let_def gray_of_111 eval_nat_numeral)
  show "mpi_main ''grayscale'' 1 1 1 3 [1, 1, 1] = Inr [0, 0, 0]"
    by (simp add: mpi_main_def compute_displs_def partition_init_def partition_step_def
        rows_per_process_def remainder_def local_height_of_def signed_divide_int_def
        signed_modulo_int_def
        scatterv_def gatherv_def c_read_def c_write_def bind_err_def mpi_rank_filter_def
        grayscale_filter_mpi_def for_loop_def grayscale_body_mpi_def Let_def gray_of_111)
qed

text \<open>
  Claim C4, amended.  For every pixel of the image (shared-memory program) or of the band
  (distributed program), with \<open>R\<close> the byte of channel 0 and \<open>G\<close>, \<open>B\<close> the bytes of
  channels 1 and 2 where these exist and \<open>R\<close> otherwise: the filter writes
  \<open>gray_of R G B\<close> into each of the channels 0, 1, 2 that exists, and channel 3 (when
  present) ends equal to the input byte of channel 3.  \<open>gray_of R G B\<close> is the
  truncated double-precision sum; it is the floor of the exact sum
  \<open>0.299 R + 0.587 G + 0.114 B\<close> whenever \<open>299 R + 587 G + 114 B\<close> is not a multiple
  of 1000, and that floor or one less otherwise.
\<close>

theorem grayscale_channels:
  assumes "img_data input \<noteq> img_data output"
      and "length (h (img_data output))
           = img_height input * img_width input * img_channels input"
      and "length band = local_height * width * channels"
  shows "(\<forall>i<img_height input. \<forall>j<img_width input. \<forall>c<img_channels input.
            grayscale_filter input output thread_count h (img_data output)
              ! ((i * img_width input + j) * img_channels input + c)
            = (let idx = (i * img_width input + j) * img_channels input;
                   r = h (img_data input) ! idx;
                   g = (if 1 < img_channels input then h (img_data input) ! (idx + 1) else r);
                   b = (if 2 < img_channels input then h (img_data input) ! (idx + 2) else r)
               in if c < 3 then gray_of r g b
                  else if c = 3 then h (img_data input) ! (idx + 3)
                  else h (img_data output) ! (idx + c))) \<and>
         (\<forall>i<local_height. \<forall>j<width. \<forall>c<channels.
            grayscale_filter_mpi band local_height width channels
              ! ((i * width + j) * channels + c)
            = (let idx = (i * width + j) * channels;
                   r = band ! idx;
                   g = (if 1 < channels then band ! (idx + 1) else r);
                   b = (if 2 < channels then band ! (idx + 2) else r)
               in if c < 3 then gray_of r g b else band ! (idx + c))) \<and>
         (\<forall>r g b.
            gray_spec r g b - 1 \<le> uint (gray_of r g b) \<and>
            uint (gray_of r g b) \<le> gray_spec r g b \<and>
            ((299 * uint r + 587 * uint g + 114 * uint b) mod 1000 \<noteq> 0 \<longrightarrow>
               uint (gray_of r g b) = gray_spec r g b))"
proof (intro conjI allI impI)
  fix i j c
  assume b: "i < img_height input" "j < img_width input" "c < img_channels input"
  let ?k = "(i * img_width input + j) * img_channels input + c"
  have k: "?k < img_height input * img_width input * img_channels input"
    by (rule pixel_index_bound [OF b])
  show "grayscale_filter input output thread_count h (img_data output) ! ?k
        = (let idx = (i * img_width input + j) * img_channels input;
               r = h (img_data input) ! idx;
               g = (if 1 < img_channels input then h (img_data input) ! (idx + 1) else r);
               b = (if 2 < img_channels input then h (img_data input) ! (idx + 2) else r)
           in if c < 3 then gray_of r g b
              else if c = 3 then h (img_data input) ! (idx + 3)
              else h (img_data output) ! (idx + c))"
    unfolding grayscale_filter_nth [of input "output" h, OF assms(1,2) k] gray_out_def Let_def
      block_div [OF b(3)]
    by simp
next
  fix i j c
  assume b: "i < local_height" "j < width" "c < channels"
  let ?k = "(i * width + j) * channels + c"
  have k: "?k < local_height * width * channels"
    by (rule pixel_index_bound [OF b])
  show "grayscale_filter_mpi band local_height width channels ! ?k
        = (let idx = (i * width + j) * channels;
               r = band ! idx;
               g = (if 1 < channels then band ! (idx + 1) else r);
               b = (if 2 < channels then band ! (idx + 2) else r)
           in if c < 3 then gray_of r g b else band ! (idx + c))"
    unfolding grayscale_filter_mpi_nth [OF assms(3) k] gray_out_def Let_def
      block_div [OF b(3)]
    by simp
next
  fix r g b :: byte
  note t = gray_of_bounds [of r g b]
  show "gray_spec r g b - 1 \<le> uint (gray_of r g b)" using t by simp
  show "uint (gray_of r g b) \<le> gray_spec r g b" using t by simp
  show "uint (gray_of r g b) = gray_spec r g b"
    if "(299 * uint r + 587 * uint g + 114 * uint b) mod 1000 \<noteq> 0"
    using t that by simp
qed


text \<open>One RGBA pixel (10, 200, 230, 77): gray is 146 and the fourth byte stays 77.\<close>

definition rgba_input :: Image where
  "rgba_input = \<lparr>img_data = 0, img_width = 1, img_height = 1, img_channels = 4\<rparr>"

definition rgba_output :: Image where
  "rgba_output = \<lparr>img_data = 1, img_width = 1, img_height = 1, img_channels = 4\<rparr>"

definition rgba_heap :: heap where
  "rgba_heap = (\<lambda>_. [])(0 := [10, 200, 230, 77], 1 := [0, 0, 0, 0])"

theorem grayscale_channels_witness:
  "grayscale_filter rgba_input rgba_output 4 rgba_heap (img_data rgba_output) ! 1
     = gray_of 10 200 230 \<and>
   grayscale_filter rgba_input rgba_output 4 rgba_heap (img_data rgba_output) ! 3 = 77 \<and>
   grayscale_filter_mpi [10, 200, 230, 77] 1 1 4 ! 2 = gray_of 10 200 230 \<and>
   grayscale_filter_mpi [10, 200, 230, 77] 1 1 4 ! 3 = 77 \<and>
   uint (gray_of 10 200 230) = 146"
proof -
  have a: "img_data rgba_input \<noteq> img_data rgba_output"
    by (simp add: rgba_input_def rgba_output_def)
  have b: "length (rgba_heap (img_data rgba_output))
           = img_height rgba_input * img_width rgba_input * img_channels rgba_input"
    by (simp add: rgba_input_def rgba_output_def rgba_heap_def)
  have c: "length [10, 200, 230, 77 :: byte] = 1 * 1 * 4" by simp
  note t = grayscale_channels [of rgba_input rgba_output rgba_heap "[10, 200, 230, 77]" 1 1 4 4,
      OF a b c]
  have i1: "(0::nat) < img_height rgba_input" "(0::nat) < img_width rgba_input"
    "(1::nat) < img_channels rgba_input"
    by (simp_all add: rgba_input_def)
  have i3: "(0::nat) < img_height rgba_input" "(0::nat) < img_width rgba_input"
    "(3::nat) < img_channels rgba_input"
    by (simp_all add: rgba_input_def)
  have j2: "(0::nat) < 1" "(0::nat) < 1" "(2::nat) < 4" by simp_all
  have j3: "(0::nat) < 1" "(0::nat) < 1" "(3::nat) < 4" by simp_all
  have x1: "(0 * img_width rgba_input + 0) * img_channels rgba_input + 1 = 1"
    and x3: "(0 * img_width rgba_input + 0) * img_channels rgba_input + 3 = 3"
    by (simp_all add: rgba_input_def)
  have y2: "((0::nat) * 1 + 0) * 4 + 2 = 2" and y3: "((0::nat) * 1 + 0) * 4 + 3 = 3"
    by simp_all
  have m: "(299 * uint (10::byte) + 587 * uint (200::byte) + 114 * uint (230::byte)) mod 1000 \<noteq> 0"
    by simp
  have s: "gray_spec 10 200 230 = 146" by (simp add: gray_spec_def)
  show ?thesis
  proof (intro conjI)
    show "grayscale_filter rgba_input rgba_output 4 rgba_heap (img_data rgba_output) ! 1
          = gray_of 10 200 230"
      using t [THEN conjunct1, rule_format, OF i1] unfolding x1
      by (simp add: rgba_input_def rgba_heap_def)
    show "grayscale_filter rgba_input rgba_output 4 rgba_heap (img_data rgba_output) ! 3 = 77"
      using t [THEN conjunct1, rule_format, OF i3] unfolding x3
      by (simp add: rgba_input_def rgba_heap_def)
    show "grayscale_filter_mpi [10, 200, 230, 77] 1 1 4 ! 2 = gray_of 10 200 230"
      using t [THEN conjunct2, THEN conjunct1, rule_format, OF j2] unfolding y2 by simp
    show "grayscale_filter_mpi [10, 200, 230, 77] 1 1 4 ! 3 = 77"
      using t [THEN conjunct2, THEN conjunct1, rule_format, OF j3] unfolding y3 by simp
    show "uint (gray_of 10 200 230) = 146"
      using t [THEN conjunct2, THEN conjunct2, rule_format, of 10 200 230] m s by simp
  qed
qed

section \<open>Which buffers a filter pass changes\<close>

lemma for_loop_preserves:
  assumes "\<And>i t. lo \<le> i \<Longrightarrow> i < hi \<Longrightarrow> f (body i t) = f t"
  shows "f (for_loop lo hi body s) = f s"
proof (cases "lo \<le> hi")
  case True
  show ?thesis
    by (rule for_loop_invariant [where P = "\<lambda>_ t. f t = f s", OF _ _ True])
       (simp_all add: assms)
next
  case False
  then show ?thesis by (simp add: for_loop_empty)
qed

lemma heap_write_other: "p \<noteq> q \<Longrightarrow> heap_write h q k v p = h p"
  by (simp add: heap_write_def)

lemma grayscale_filter_frame:
  assumes "p \<noteq> img_data output"
  shows "grayscale_filter input output thread_count h p = h p"
  unfolding grayscale_filter_def
  apply (rule for_loop_preserves [where f = "\<lambda>h. h p"])
  apply (rule for_loop_preserves [where f = "\<lambda>h. h p"])
  apply (simp add: grayscale_body_def Let_def heap_write_other [OF assms])
  done

lemma brightness_filter_frame:
  assumes "p \<noteq> img_data output"
  shows "brightness_filter input output brightness thread_count h p = h p"
  unfolding brightness_filter_def Let_def
  apply (rule for_loop_preserves [where f = "\<lambda>h. h p"])
  apply (rule for_loop_preserves [where f = "\<lambda>h. h p"])
  apply (rule for_loop_preserves [where f = "\<lambda>h. h p"])
  apply (simp add: heap_write_other [OF assms])
  done

lemma copy_borders_frame:
  assumes "p \<noteq> img_data output"
  shows "copy_borders input output h p = h p"
  unfolding copy_borders_def Let_def
proof (rule for_loop_preserves [where f = "\<lambda>h. h p"])
  fix i t
  show "(if i = 0 \<or> i = img_height input - 1
         then for_loop 0 (img_width input) (\<lambda>j.
                for_loop 0 (img_channels input) (\<lambda>c h.
                  heap_write h (img_data output) ((i * img_width input + j) * img_channels input + c)
                    (h (img_data input) ! ((i * img_width input + j) * img_channels input + c)))) t
         else for_loop 0 (img_channels input) (\<lambda>c h.
                heap_write (heap_write h (img_data output) (i * img_width input * img_channels input + c)
                              (h (img_data input) ! (i * img_width input * img_channels input + c)))
                  (img_data output) ((i * img_width input + img_width input - 1) * img_channels input + c)
                  (heap_write h (img_data output) (i * img_width input * img_channels input + c)
                     (h (img_data input) ! (i * img_width input * img_channels input + c))
                     (img_data input) ! ((i * img_width input + img_width input - 1) * img_channels input + c))) t) p
        = t p"
  proof (cases "i = 0 \<or> i = img_height input - 1")
    case True
    have "for_loop 0 (img_width input) (\<lambda>j.
                for_loop 0 (img_channels input) (\<lambda>c h.
                  heap_write h (img_data output) ((i * img_width input + j) * img_channels input + c)
                    (h (img_data input) ! ((i * img_width input + j) * img_channels input + c)))) t p
          = t p"
      apply (rule for_loop_preserves [where f = "\<lambda>h. h p"])
      apply (rule for_loop_preserves [where f = "\<lambda>h. h p"])
      apply (simp add: heap_write_other [OF assms])
      done
    then show ?thesis using True by simp
  next
    case False
    have "for_loop 0 (img_channels input) (\<lambda>c h.
                heap_write (heap_write h (img_data output) (i * img_width input * img_channels input + c)
                              (h (img_data input) ! (i * img_width input * img_channels input + c)))
                  (img_data output) ((i * img_width input + img_width input - 1) * img_channels input + c)
                  (heap_write h (img_data output) (i * img_width input * img_channels input + c)
                     (h (img_data input) ! (i * img_width input * img_channels input + c))
                     (img_data input) ! ((i * img_width input + img_width input - 1) * img_channels input + c))) t p
          = t p"
      apply (rule for_loop_preserves [where f = "\<lambda>h. h p"])
      apply (simp add: heap_write_other [OF assms])
      done
    then show ?thesis using False by simp
  qed
qed

lemma gaussian_blur_filter_frame:
  assumes "p \<noteq> img_data output"
  shows "gaussian_blur_filter input output thread_count h p = h p"
proof -
  have "for_loop 1 (img_height input - 1) (\<lambda>i.
          for_loop 1 (img_width input - 1) (\<lambda>j.
            for_loop 0 (img_channels input) (\<lambda>c h.
              heap_write h (img_data output) ((i * img_width input + j) * img_channels input + c)
                (to_uchar (blur_sum (h (img_data input)) (img_width input)
                   (img_channels input) i j c))))) h p = h p"
    apply (rule for_loop_preserves [where f = "\<lambda>h. h p"])
    apply (rule for_loop_preserves [where f = "\<lambda>h. h p"])
    apply (rule for_loop_preserves [where f = "\<lambda>h. h p"])
    apply (simp add: heap_write_other [OF assms])
    done
  then show ?thesis
    unfolding gaussian_blur_filter_def Let_def by (simp add: copy_borders_frame [OF assms])
qed

lemma sobel_edge_filter_frame:
  assumes "p \<noteq> img_data output"
  shows "sobel_edge_filter input output thread_count h p = h p"
  unfolding sobel_edge_filter_def Let_def
  apply (rule for_loop_preserves [where f = "\<lambda>h. h p"])
  apply (rule for_loop_preserves [where f = "\<lambda>h. h p"])
  apply (rule for_loop_preserves [where f = "\<lambda>h. h p"])
  apply (simp add: heap_write_other [OF assms])
  done

lemma gaussian_blur_filter_mpi_temp:
  "temp (gaussian_blur_filter_mpi band halo_top halo_bottom local_height width channels rank nprocs)
   = band"
proof -
  have "temp (gaussian_blur_filter_mpi band halo_top halo_bottom local_height width channels
                rank nprocs)
        = temp \<lparr>local_data = band, temp = band\<rparr>"
    unfolding gaussian_blur_filter_mpi_def Let_def
  proof (rule for_loop_preserves [where f = temp])
    fix i s
    have "temp (for_loop 1 (width - 1) (\<lambda>j.
                 for_loop 0 channels (\<lambda>c s.
                   s\<lparr>local_data := (local_data s)[(i * width + j) * channels + c :=
                        to_uchar (blur_sum_mpi (temp s) halo_top halo_bottom
                                    local_height width channels i j c)]\<rparr>)) s) = temp s"
      apply (rule for_loop_preserves [where f = temp])
      apply (rule for_loop_preserves [where f = temp])
      apply simp
      done
    then show "temp (if skip_row local_height rank nprocs i then s
                     else for_loop (if i = 0 \<or> int i = int local_height - 1 then 1 else 1)
                            (width - 1) (\<lambda>j.
                            for_loop 0 channels (\<lambda>c s.
                              s\<lparr>local_data := (local_data s)[(i * width + j) * channels + c :=
                                to_uchar (blur_sum_mpi (temp s) halo_top halo_bottom
                                            local_height width channels i j c)]\<rparr>)) s)
               = temp s"
      by simp
  qed
  then show ?thesis by simp
qed

lemma sobel_edge_filter_mpi_temp:
  "temp (sobel_edge_filter_mpi band halo_top halo_bottom local_height width channels rank nprocs)
   = band"
proof -
  have "temp (sobel_edge_filter_mpi band halo_top halo_bottom local_height width channels
                rank nprocs)
        = temp \<lparr>local_data = band, temp = band\<rparr>"
    unfolding sobel_edge_filter_mpi_def Let_def
    by (rule for_loop_preserves [where f = temp])
       (auto intro!: for_loop_preserves [where f = temp])
  then show ?thesis by simp
qed


lemma grayscale_in_place:
  assumes "img_data input \<noteq> img_data output"
      and "h (img_data input) = band" "h (img_data output) = band"
      and "img_height input = local_height" "img_width input = width"
          "img_channels input = channels"
      and "length band = local_height * width * channels"
  shows "grayscale_filter_mpi band local_height width channels
         = grayscale_filter input output thread_count h (img_data output)"
proof (rule nth_equalityI)
  have l1: "length (grayscale_filter_mpi band local_height width channels) = length band"
    unfolding grayscale_filter_mpi_def
    by (intro for_loop_length) (simp add: length_grayscale_body_mpi)
  have l2: "length (grayscale_filter input output thread_count h (img_data output)) = length band"
    unfolding grayscale_filter_heap [OF assms(1)] using assms(3)
    by (simp add: for_loop_length length_gray_px)
  show "length (grayscale_filter_mpi band local_height width channels)
        = length (grayscale_filter input output thread_count h (img_data output))"
    using l1 l2 by simp
  fix k
  assume "k < length (grayscale_filter_mpi band local_height width channels)"
  then have k: "k < local_height * width * channels" using l1 assms(7) by simp
  have k': "k < img_height input * img_width input * img_channels input"
    using k assms(4-6) by simp
  have len: "length (h (img_data output))
             = img_height input * img_width input * img_channels input"
    using assms(3-7) by simp
  show "grayscale_filter_mpi band local_height width channels ! k
        = grayscale_filter input output thread_count h (img_data output) ! k"
    unfolding grayscale_filter_mpi_nth [OF assms(7) k]
      grayscale_filter_nth [of input "output" h, OF assms(1) len k']
    using assms(2,3,6) by simp
qed

lemma brightness_in_place:
  assumes "img_data input \<noteq> img_data output"
      and "h (img_data input) = band" "h (img_data output) = band"
      and "img_height input = local_height" "img_width input = width"
          "img_channels input = channels"
      and "length band = local_height * width * channels"
  shows "brightness_filter_mpi band local_height width channels brightness
         = brightness_filter input output brightness thread_count h (img_data output)"
proof (rule nth_equalityI)
  have l1: "length (brightness_filter_mpi band local_height width channels brightness)
            = length band"
    unfolding brightness_filter_mpi_def Let_def by (intro for_loop_length) simp
  have l2: "length (brightness_filter input output brightness thread_count h (img_data output))
            = length band"
    unfolding brightness_filter_heap [OF assms(1)] using assms(3)
    by (simp add: for_loop_length)
  show "length (brightness_filter_mpi band local_height width channels brightness)
        = length (brightness_filter input output brightness thread_count h (img_data output))"
    using l1 l2 by simp
  fix k
  assume "k < length (brightness_filter_mpi band local_height width channels brightness)"
  then have k: "k < length band" using l1 by simp
  have "brightness_filter input output brightness thread_count h (img_data output) ! k
        = brighten_byte brightness (band ! k)"
    using k assms(2-7)
    by (simp add: brightness_filter_heap [OF assms(1)]
        for_loop_pointwise [where f = "\<lambda>k _. brighten_byte brightness (band ! k)"])
  then show "brightness_filter_mpi band local_height width channels brightness ! k
        = brightness_filter input output brightness thread_count h (img_data output) ! k"
    using k assms(7) by (simp add: brightness_filter_mpi_nth)
qed

section \<open>The stencil filters of the distributed program on one band\<close>

lemma for_loop_owner:
  assumes len: "\<And>i t. length (body i t) = length t"
      and frame: "\<And>i t k. lo \<le> i \<Longrightarrow> i < hi \<Longrightarrow> k < length t \<Longrightarrow> own k \<noteq> i \<Longrightarrow>
                    body i t ! k = t ! k"
      and wr: "\<And>i t k. lo \<le> i \<Longrightarrow> i < hi \<Longrightarrow> k < length t \<Longrightarrow> own k = i \<Longrightarrow>
                    body i t ! k = V k"
  shows "length (for_loop lo hi body s) = length s \<and>
         (\<forall>k<length s. for_loop lo hi body s ! k
                        = (if lo \<le> own k \<and> own k < hi then V k else s ! k))"
proof (cases "lo \<le> hi")
  case True
  let ?P = "\<lambda>m t. length t = length s \<and>
                    (\<forall>k<length s. t ! k = (if lo \<le> own k \<and> own k < m then V k else s ! k))"
  show ?thesis
  proof (rule for_loop_invariant [where P = ?P, OF _ _ True])
    show "?P lo s" by auto
  next
    fix i t
    assume i: "lo \<le> i" "i < hi" and P: "?P i t"
    have l: "length (body i t) = length s" using P by (simp add: len)
    have "body i t ! k = (if lo \<le> own k \<and> own k < Suc i then V k else s ! k)"
      if k: "k < length s" for k
    proof (cases "own k = i")
      case True
      then have "body i t ! k = V k" using wr [OF i] k P by simp
      then show ?thesis using True i by simp
    next
      case False
      then have "body i t ! k = t ! k" using frame [OF i] k P by simp
      then show ?thesis using P k False by (auto simp: less_Suc_eq)
    qed
    then show "?P (Suc i) (body i t)" using l by simp
  qed
next
  case False
  then show ?thesis by (auto simp: for_loop_empty)
qed

text \<open>
  The loop nest of the two stencil filters of the distributed program on a buffer: every
  row that is not skipped, the columns 1 to the last but one, every channel.
\<close>

definition chan_loop :: "(nat \<Rightarrow> byte) \<Rightarrow> nat \<Rightarrow> nat \<Rightarrow> byte list \<Rightarrow> byte list" where
  "chan_loop V channels p = for_loop 0 channels (\<lambda>c out. out[p * channels + c := V c])"

definition col_loop ::
  "(nat \<Rightarrow> nat \<Rightarrow> byte) \<Rightarrow> nat \<Rightarrow> nat \<Rightarrow> nat \<Rightarrow> byte list \<Rightarrow> byte list" where
  "col_loop V width channels i =
     for_loop 1 (width - 1) (\<lambda>j. chan_loop (V j) channels (i * width + j))"

definition stencil_rows ::
  "(nat \<Rightarrow> bool) \<Rightarrow> (nat \<Rightarrow> nat \<Rightarrow> nat \<Rightarrow> byte) \<Rightarrow> nat \<Rightarrow> nat \<Rightarrow> nat \<Rightarrow> byte list \<Rightarrow> byte list" where
  "stencil_rows skip V local_height width channels =
     for_loop 0 local_height (\<lambda>i out.
       if skip i then out else col_loop (V i) width channels i out)"

lemma chan_loop_nth:
  assumes "0 < channels"
  shows "length (chan_loop V channels p out) = length out \<and>
         (\<forall>k<length out. chan_loop V channels p out ! k
                          = (if k div channels = p then V (k mod channels) else out ! k))"
proof -
  let ?own = "\<lambda>k. if k div channels = p then k mod channels else channels"
  have "length (chan_loop V channels p out) = length out \<and>
        (\<forall>k<length out. chan_loop V channels p out ! k
           = (if 0 \<le> ?own k \<and> ?own k < channels then V (k mod channels) else out ! k))"
    unfolding chan_loop_def
  proof (rule for_loop_owner)
    fix c k and t :: "byte list"
    assume c: "c < channels" and k: "k < length t"
    show "t[p * channels + c := V c] ! k = t ! k" if "?own k \<noteq> c"
    proof -
      have "k \<noteq> p * channels + c"
      proof
        assume "k = p * channels + c"
        then have "k div channels = p" "k mod channels = c"
          using block_div [OF c, of p] by simp_all
        then show False using that c by simp
      qed
      then show ?thesis by simp
    qed
    show "t[p * channels + c := V c] ! k = V (k mod channels)" if "?own k = c"
    proof -
      have d: "k div channels = p" "k mod channels = c"
        using that c by (auto split: if_splits)
      have "k = p * channels + c" using div_mult_mod_eq [of k channels] d by simp
      then show ?thesis using k d by simp
    qed
  qed simp
  then show ?thesis using assms by (auto split: if_splits)
qed

lemma col_loop_nth:
  assumes "0 < channels" "0 < width"
  shows "length (col_loop V width channels i out) = length out \<and>
         (\<forall>k<length out. col_loop V width channels i out ! k
            = (if k div channels div width = i \<and> 1 \<le> k div channels mod width \<and>
                  k div channels mod width < width - 1
               then V (k div channels mod width) (k mod channels) else out ! k))"
proof -
  let ?own = "\<lambda>k. if k div channels div width = i then k div channels mod width else width"
  have "length (col_loop V width channels i out) = length out \<and>
        (\<forall>k<length out. col_loop V width channels i out ! k
           = (if 1 \<le> ?own k \<and> ?own k < width - 1
              then V (k div channels mod width) (k mod channels) else out ! k))"
    unfolding col_loop_def
  proof (rule for_loop_owner)
    fix j k and t :: "byte list"
    assume j: "1 \<le> j" "j < width - 1" and k: "k < length t"
    have jw: "j < width" using j by simp
    have eq: "k div channels = i * width + j \<longleftrightarrow>
              k div channels div width = i \<and> k div channels mod width = j"
      using jw div_mult_mod_eq [of "k div channels" width] by auto
    show "chan_loop (V j) channels (i * width + j) t ! k = t ! k" if "?own k \<noteq> j"
    proof -
      have "k div channels \<noteq> i * width + j" using that eq by (auto split: if_splits)
      then show ?thesis using chan_loop_nth [OF assms(1)] k by simp
    qed
    show "chan_loop (V j) channels (i * width + j) t ! k
          = V (k div channels mod width) (k mod channels)" if "?own k = j"
    proof -
      have "k div channels div width = i \<and> k div channels mod width = j"
        using that jw by (auto split: if_splits)
      then show ?thesis using chan_loop_nth [OF assms(1)] k eq by simp
    qed
  next
    show "length (chan_loop (V j) channels (i * width + j) t) = length t"
      for j and t :: "byte list"
      using chan_loop_nth [OF assms(1)] by simp
  qed
  then show ?thesis by (auto split: if_splits)
qed

lemma stencil_rows_nth:
  assumes "0 < channels" "0 < width"
  shows "length (stencil_rows skip V local_height width channels out) = length out \<and>
         (\<forall>k<length out. stencil_rows skip V local_height width channels out ! k
            = (if k div channels div width < local_height \<and> \<not> skip (k div channels div width) \<and>
                  1 \<le> k div channels mod width \<and> k div channels mod width < width - 1
               then V (k div channels div width) (k div channels mod width) (k mod channels)
               else out ! k))"
proof -
  let ?row = "\<lambda>k. k div channels div width" and ?col = "\<lambda>k. k div channels mod width"
  let ?own = "\<lambda>k. if skip (?row k) \<or> \<not> (1 \<le> ?col k \<and> ?col k < width - 1)
                   then local_height else ?row k"
  have "length (stencil_rows skip V local_height width channels out) = length out \<and>
        (\<forall>k<length out. stencil_rows skip V local_height width channels out ! k
           = (if 0 \<le> ?own k \<and> ?own k < local_height
              then V (?row k) (?col k) (k mod channels) else out ! k))"
    unfolding stencil_rows_def
  proof (rule for_loop_owner)
    fix i k and t :: "byte list"
    assume i: "i < local_height" and k: "k < length t"
    note c = col_loop_nth [OF assms, of "V i" i t]
    show "(if skip i then t else col_loop (V i) width channels i t) ! k = t ! k"
      if "?own k \<noteq> i"
      using that c k i by (auto split: if_splits)
    show "(if skip i then t else col_loop (V i) width channels i t) ! k
          = V (?row k) (?col k) (k mod channels)" if "?own k = i"
      using that c k i by (auto split: if_splits)
  next
    show "length (if skip i then t else col_loop (V i) width channels i t) = length t"
      for i and t :: "byte list"
      using col_loop_nth [OF assms, of "V i" i t] by simp
  qed
  then show ?thesis by (auto split: if_splits)
qed

lemma for_loop_band:
  assumes "\<And>i t. lo \<le> i \<Longrightarrow> i < hi \<Longrightarrow> temp t = temp s \<Longrightarrow>
             body i t = t\<lparr>local_data := g i (local_data t)\<rparr>"
  shows "for_loop lo hi body s = s\<lparr>local_data := for_loop lo hi g (local_data s)\<rparr>"
proof (cases "lo \<le> hi")
  case True
  show ?thesis
  proof (rule for_loop_invariant
      [where P = "\<lambda>k t. t = s\<lparr>local_data := for_loop lo k g (local_data s)\<rparr>", OF _ _ True])
    show "s = s\<lparr>local_data := for_loop lo lo g (local_data s)\<rparr>"
      by (simp add: for_loop_empty)
  next
    fix i t
    assume i: "lo \<le> i" "i < hi" and t: "t = s\<lparr>local_data := for_loop lo i g (local_data s)\<rparr>"
    have "temp t = temp s" using t by simp
    then have "body i t = t\<lparr>local_data := g i (local_data t)\<rparr>" by (rule assms [OF i])
    then show "body i t = s\<lparr>local_data := for_loop lo (Suc i) g (local_data s)\<rparr>"
      using t i by (simp add: for_loop_snoc)
  qed
next
  case False
  then show ?thesis by (simp add: for_loop_empty)
qed

lemma gaussian_blur_filter_mpi_rows:
  "gaussian_blur_filter_mpi band halo_top halo_bottom local_height width channels rank nprocs
   = \<lparr>local_data =
        stencil_rows (skip_row local_height rank nprocs)
          (\<lambda>i j c. to_uchar (blur_sum_mpi band halo_top halo_bottom local_height width channels
                                i j c))
          local_height width channels band,
      temp = band\<rparr>"
proof -
  let ?s = "\<lparr>local_data = band, temp = band\<rparr>"
  let ?V = "\<lambda>i j c. to_uchar (blur_sum_mpi band halo_top halo_bottom local_height width channels
                                i j c)"
  have "gaussian_blur_filter_mpi band halo_top halo_bottom local_height width channels rank nprocs
        = ?s\<lparr>local_data :=
              stencil_rows (skip_row local_height rank nprocs) ?V local_height width channels
                (local_data ?s)\<rparr>"
    unfolding gaussian_blur_filter_mpi_def stencil_rows_def col_loop_def chan_loop_def Let_def
  proof (rule for_loop_band)
    fix i t
    assume t: "temp t = temp ?s"
    have "for_loop 1 (width - 1) (\<lambda>j. for_loop 0 channels (\<lambda>c s.
            s\<lparr>local_data := (local_data s)[(i * width + j) * channels + c :=
                 to_uchar (blur_sum_mpi (temp s) halo_top halo_bottom local_height width
                             channels i j c)]\<rparr>)) t
          = t\<lparr>local_data := for_loop 1 (width - 1) (\<lambda>j. for_loop 0 channels (\<lambda>c out.
                 out[(i * width + j) * channels + c := ?V i j c])) (local_data t)\<rparr>"
      apply (rule for_loop_band)
      apply (rule for_loop_band)
      apply (simp add: t)
      done
    then show "(if skip_row local_height rank nprocs i then t
           else for_loop (if i = 0 \<or> int i = int local_height - 1 then 1 else 1) (width - 1)
                  (\<lambda>j. for_loop 0 channels (\<lambda>c s.
                     s\<lparr>local_data := (local_data s)[(i * width + j) * channels + c :=
                        to_uchar (blur_sum_mpi (temp s) halo_top halo_bottom local_height width
                                    channels i j c)]\<rparr>)) t)
          = t\<lparr>local_data :=
                (if skip_row local_height rank nprocs i then local_data t
                 else for_loop 1 (width - 1) (\<lambda>j. for_loop 0 channels (\<lambda>c out.
                        out[(i * width + j) * channels + c := ?V i j c])) (local_data t))\<rparr>"
      by simp
  qed
  then show ?thesis by simp
qed

lemma sobel_edge_filter_mpi_rows:
  "sobel_edge_filter_mpi band halo_top halo_bottom local_height width channels rank nprocs
   = \<lparr>local_data =
        stencil_rows (skip_row local_height rank nprocs)
          (\<lambda>i j c. edge_value_of (sobel_sums_mpi band halo_top halo_bottom local_height width
                                     channels i j))
          local_height width channels band,
      temp = band\<rparr>"
proof -
  let ?s = "\<lparr>local_data = band, temp = band\<rparr>"
  let ?V = "\<lambda>i j (c::nat). edge_value_of (sobel_sums_mpi band halo_top halo_bottom local_height
                                           width channels i j)"
  have "sobel_edge_filter_mpi band halo_top halo_bottom local_height width channels rank nprocs
        = ?s\<lparr>local_data :=
              stencil_rows (skip_row local_height rank nprocs) ?V local_height width channels
                (local_data ?s)\<rparr>"
    unfolding sobel_edge_filter_mpi_def stencil_rows_def col_loop_def chan_loop_def Let_def
  proof (rule for_loop_band)
    fix i t
    assume t: "temp t = temp ?s"
    have "for_loop 1 (width - 1) (\<lambda>j s. for_loop 0 channels (\<lambda>c u.
            u\<lparr>local_data := (local_data u)[(i * width + j) * channels + c :=
                 edge_value_of (sobel_sums_mpi (temp s) halo_top halo_bottom local_height width
                                  channels i j)]\<rparr>) s) t
          = t\<lparr>local_data := for_loop 1 (width - 1) (\<lambda>j. for_loop 0 channels (\<lambda>c out.
                 out[(i * width + j) * channels + c := ?V i j c])) (local_data t)\<rparr>"
      apply (rule for_loop_band)
      apply (simp only:)
      apply (rule for_loop_band)
      apply (simp add: t)
      done
    then show "(if skip_row local_height rank nprocs i then t
           else for_loop 1 (width - 1)
                  (\<lambda>j s. for_loop 0 channels (\<lambda>c u.
                     u\<lparr>local_data := (local_data u)[(i * width + j) * channels + c :=
                        edge_value_of (sobel_sums_mpi (temp s) halo_top halo_bottom local_height
                                         width channels i j)]\<rparr>) s) t)
          = t\<lparr>local_data :=
                (if skip_row local_height rank nprocs i then local_data t
                 else for_loop 1 (width - 1) (\<lambda>j. for_loop 0 channels (\<lambda>c out.
                        out[(i * width + j) * channels + c := ?V i j c])) (local_data t))\<rparr>"
      by simp
  qed
  then show ?thesis by simp
qed

section \<open>Scatter and gather along the partition\<close>

text \<open>The rows of a rank as natural numbers: how many, and where they start.\<close>

definition row_count :: "int \<Rightarrow> int \<Rightarrow> nat \<Rightarrow> nat" where
  "row_count height nprocs r = nat (local_height_of height nprocs (int r))"

definition row_start :: "int \<Rightarrow> int \<Rightarrow> nat \<Rightarrow> nat" where
  "row_start height nprocs r = (\<Sum>k<r. row_count height nprocs k)"

lemma local_height_of_nonneg:
  assumes "0 \<le> height" "1 \<le> nprocs"
  shows "0 \<le> local_height_of height nprocs r"
proof -
  have "0 \<le> height div nprocs" using assms by (simp add: pos_imp_zdiv_nonneg_iff)
  then show ?thesis by (simp add: local_height_of_eq [OF assms])
qed

lemma local_height_of_pos:
  assumes "1 \<le> nprocs" "nprocs \<le> height"
  shows "1 \<le> local_height_of height nprocs r"
proof -
  have h: "0 \<le> height" using assms by simp
  have "nprocs div nprocs \<le> height div nprocs" using assms by (intro zdiv_mono1) simp_all
  then have "1 \<le> height div nprocs" using assms by simp
  then show ?thesis by (simp add: local_height_of_eq [OF h assms(1)])
qed

lemma int_row_count:
  assumes "0 \<le> height" "1 \<le> nprocs"
  shows "int (row_count height nprocs r) = local_height_of height nprocs (int r)"
  using local_height_of_nonneg [OF assms] by (simp add: row_count_def)

lemma int_row_start:
  assumes "0 \<le> height" "1 \<le> nprocs"
  shows "int (row_start height nprocs r) = (\<Sum>k<r. local_height_of height nprocs (int k))"
  by (simp add: row_start_def int_row_count [OF assms])

lemma row_start_Suc:
  "row_start height nprocs (Suc r) = row_start height nprocs r + row_count height nprocs r"
  by (simp add: row_start_def)

lemma row_start_mono: "r \<le> r' \<Longrightarrow> row_start height nprocs r \<le> row_start height nprocs r'"
  unfolding row_start_def by (intro sum_mono2) auto

lemma row_start_total:
  assumes "0 \<le> height" "1 \<le> nprocs"
  shows "row_start height nprocs (nat nprocs) = nat height"
proof -
  have "int (row_start height nprocs (nat nprocs)) = height"
    using sum_local_height_of [OF assms] by (simp add: int_row_start [OF assms])
  then show ?thesis by simp
qed

lemma row_range:
  assumes "0 \<le> height" "1 \<le> nprocs" "r < nat nprocs"
  shows "row_start height nprocs r + row_count height nprocs r \<le> nat height"
proof -
  have "row_start height nprocs (Suc r) \<le> row_start height nprocs (nat nprocs)"
    using assms(3) by (intro row_start_mono) simp
  then show ?thesis by (simp add: row_start_Suc row_start_total [OF assms(1,2)])
qed

lemma compute_displs_rows:
  assumes "0 \<le> height" "1 \<le> nprocs" "r < nat nprocs"
  shows "sendcounts (compute_displs height nprocs (int width) (int channels)) ! r
           = int (row_count height nprocs r * (width * channels))"
    and "displs (compute_displs height nprocs (int width) (int channels)) ! r
           = int (row_start height nprocs r * (width * channels))"
proof -
  let ?p = "compute_displs height nprocs (int width) (int channels)"
  have a: "sendcounts ?p ! r = local_height_of height nprocs (int r) * int width * int channels"
    and b: "displs ?p ! r
            = (\<Sum>k<r. local_height_of height nprocs (int k)) * int width * int channels"
    using partition_inv_final [of height nprocs "int width" "int channels"] assms(3)
    by (simp_all add: partition_inv_def)
  show "sendcounts ?p ! r = int (row_count height nprocs r * (width * channels))"
    unfolding a int_row_count [OF assms(1,2), symmetric] by simp
  show "displs ?p ! r = int (row_start height nprocs r * (width * channels))"
    unfolding b int_row_start [OF assms(1,2), symmetric] by simp
qed

lemma collect_map:
  assumes "\<And>x. x \<in> set xs \<Longrightarrow> f x = Inr (g x)"
  shows "collect (map f xs) = Inr (map g xs)"
  using assms by (induction xs) (simp_all add: bind_err_def)

text \<open>The band of rank \<open>r\<close>: its rows of the full image.\<close>

definition band_of :: "int \<Rightarrow> int \<Rightarrow> nat \<Rightarrow> byte list \<Rightarrow> nat \<Rightarrow> byte list" where
  "band_of height nprocs row_size full r =
     take (row_count height nprocs r * row_size) (drop (row_start height nprocs r * row_size) full)"

lemma scatterv_bands:
  assumes "0 \<le> height" "1 \<le> nprocs"
      and "length full = nat height * (width * channels)"
  shows "scatterv full (sendcounts (compute_displs height nprocs (int width) (int channels)))
           (displs (compute_displs height nprocs (int width) (int channels))) (nat nprocs)
         = Inr (map (band_of height nprocs (width * channels) full) [0..<nat nprocs])"
  unfolding scatterv_def
proof (rule collect_map)
  fix r
  assume "r \<in> set [0..<nat nprocs]"
  then have r: "r < nat nprocs" by simp
  have "(row_start height nprocs r + row_count height nprocs r) * (width * channels)
        \<le> nat height * (width * channels)"
    using row_range [OF assms(1,2) r] by (intro mult_le_mono1)
  then have "row_start height nprocs r * (width * channels)
             + row_count height nprocs r * (width * channels) \<le> length full"
    using assms(3) by (simp add: algebra_simps)
  then show "c_read full
               (displs (compute_displs height nprocs (int width) (int channels)) ! r)
               (sendcounts (compute_displs height nprocs (int width) (int channels)) ! r)
             = Inr (band_of height nprocs (width * channels) full r)"
    unfolding compute_displs_rows [OF assms(1,2) r] c_read_def band_of_def
    by (simp only: nat_int of_nat_0_le_iff of_nat_add [symmetric] of_nat_le_iff if_True simp_thms)
qed

lemma length_concat_take:
  assumes "\<And>r. r < m \<Longrightarrow> length (xs ! r) = f r" "m \<le> length xs"
  shows "length (concat (take m xs)) = (\<Sum>r<m. f r)"
  using assms
proof (induction m)
  case 0
  show ?case by simp
next
  case (Suc m)
  have "take (Suc m) xs = take m xs @ [xs ! m]"
    using Suc.prems(2) by (simp add: take_Suc_conv_app_nth)
  then show ?case using Suc by simp
qed

lemma gatherv_concat:
  assumes "0 \<le> height" "1 \<le> nprocs"
      and "length full = nat height * (width * channels)"
      and "length filtered = nat nprocs"
      and "\<And>r. r < nat nprocs \<Longrightarrow>
             length (filtered ! r) = row_count height nprocs r * (width * channels)"
  shows "gatherv full (displs (compute_displs height nprocs (int width) (int channels)))
           filtered (nat nprocs)
         = Inr (concat filtered)"
proof -
  let ?p = "compute_displs height nprocs (int width) (int channels)"
  let ?RS = "width * channels"
  let ?body = "\<lambda>r acc. bind_err acc (\<lambda>buf. c_write buf (displs ?p ! r) (filtered ! r))"
  let ?P = "\<lambda>m acc. acc = Inr (concat (take m filtered)
                               @ drop (row_start height nprocs m * ?RS) full)"
  have len: "length (concat (take m filtered)) = row_start height nprocs m * ?RS"
    if "m \<le> nat nprocs" for m
  proof -
    have "length (concat (take m filtered))
          = (\<Sum>r<m. row_count height nprocs r * ?RS)"
      using that assms(4,5) by (intro length_concat_take) simp_all
    then show ?thesis by (simp add: row_start_def sum_distrib_right)
  qed
  have "?P (nat nprocs) (for_loop 0 (nat nprocs) ?body (Inr full))"
  proof (rule for_loop_invariant [where P = ?P])
    show "?P 0 (Inr full)" by (simp add: row_start_def)
  next
    fix m and acc :: "error + byte list"
    assume m: "m < nat nprocs" and P: "?P m acc"
    let ?A = "concat (take m filtered)"
    let ?off = "row_start height nprocs m * ?RS"
    let ?buf = "?A @ drop ?off full"
    have lA: "length ?A = ?off" using len [of m] m by simp
    have lf: "length (filtered ! m) = row_count height nprocs m * ?RS"
      using assms(5) m by simp
    have "(row_start height nprocs m + row_count height nprocs m) * ?RS \<le> nat height * ?RS"
      using row_range [OF assms(1,2) m] by (intro mult_le_mono1)
    then have fits: "?off + length (filtered ! m) \<le> length full"
      using assms(3) lf by (simp add: algebra_simps)
    then have lb: "length ?buf = length full" using lA by simp
    have d: "displs ?p ! m = int ?off" by (rule compute_displs_rows(2) [OF assms(1,2) m])
    have w: "c_write ?buf (displs ?p ! m) (filtered ! m)
          = Inr (take ?off ?buf @ filtered ! m @ drop (?off + length (filtered ! m)) ?buf)"
      unfolding c_write_def d using fits lb
      by (simp only: nat_int of_nat_0_le_iff of_nat_add [symmetric] of_nat_le_iff if_True simp_thms)
    have t: "take ?off ?buf = ?A" using lA by simp
    have r: "drop (?off + length (filtered ! m)) ?buf
             = drop (row_start height nprocs (Suc m) * ?RS) full"
      using lA lf by (simp add: row_start_Suc algebra_simps)
    have a: "concat (take (Suc m) filtered) = ?A @ filtered ! m"
      using m assms(4) by (simp add: take_Suc_conv_app_nth)
    have "c_write ?buf (displs ?p ! m) (filtered ! m)
                  = Inr (concat (take (Suc m) filtered)
                         @ drop (row_start height nprocs (Suc m) * ?RS) full)"
      unfolding w t r a by simp
    then show "?P (Suc m) (?body m acc)" using P by (simp add: bind_err_def)
  qed simp
  then show ?thesis
    using assms(3,4)
    by (simp add: gatherv_def for_loop_def row_start_total [OF assms(1,2)])
qed

lemma mpi_main_concat:
  assumes "0 \<le> height" "1 \<le> nprocs"
      and "length full = nat height * (width * channels)"
      and "\<And>r. r < nat nprocs \<Longrightarrow>
             mpi_rank_filter filter_type nprocs height width channels
               (map (band_of height nprocs (width * channels) full) [0..<nat nprocs]) (int r)
             = Inr (F r)"
      and "\<And>r. r < nat nprocs \<Longrightarrow> length (F r) = row_count height nprocs r * (width * channels)"
  shows "mpi_main filter_type nprocs width height channels full
         = Inr (concat (map F [0..<nat nprocs]))"
proof -
  let ?bands = "map (band_of height nprocs (width * channels) full) [0..<nat nprocs]"
  have c: "collect (map (\<lambda>r. mpi_rank_filter filter_type nprocs height width channels
                               ?bands (int r)) [0..<nat nprocs])
           = Inr (map F [0..<nat nprocs])"
    by (rule collect_map) (simp add: assms(4))
  have g: "gatherv full (displs (compute_displs height nprocs (int width) (int channels)))
             (map F [0..<nat nprocs]) (nat nprocs)
           = Inr (concat (map F [0..<nat nprocs]))"
    by (rule gatherv_concat [OF assms(1-3)]) (simp_all add: assms(5))
  show ?thesis
    unfolding mpi_main_def Let_def scatterv_bands [OF assms(1-3)]
    by (simp add: bind_err_def c g)
qed

lemma length_band_of:
  assumes "0 \<le> height" "1 \<le> nprocs" "r < nat nprocs"
      and "length full = nat height * row_size"
  shows "length (band_of height nprocs row_size full r) = row_count height nprocs r * row_size"
proof -
  have "(row_start height nprocs r + row_count height nprocs r) * row_size
        \<le> nat height * row_size"
    using row_range [OF assms(1-3)] by (intro mult_le_mono1)
  then show ?thesis using assms(4) by (simp add: band_of_def algebra_simps)
qed

lemma nth_band_of:
  assumes "0 \<le> height" "1 \<le> nprocs" "r < nat nprocs"
      and "length full = nat height * row_size"
      and "x < row_count height nprocs r * row_size"
  shows "band_of height nprocs row_size full r ! x
         = full ! (row_start height nprocs r * row_size + x)"
proof -
  have "row_start height nprocs r \<le> nat height"
    using row_range [OF assms(1-3)] by simp
  then have "row_start height nprocs r * row_size \<le> length full"
    unfolding assms(4) by (rule mult_le_mono1)
  then show ?thesis using assms(5) by (simp add: band_of_def)
qed

lemma concat_bands_map:
  assumes "\<And>r. r < n \<Longrightarrow>
             F r = map (\<lambda>x. G (row_start height nprocs r * row_size + x))
                     [0..<row_count height nprocs r * row_size]"
  shows "concat (map F [0..<n]) = map G [0..<row_start height nprocs n * row_size]"
  using assms
proof (induction n)
  case 0
  show ?case by (simp add: row_start_def)
next
  case (Suc n)
  let ?a = "row_start height nprocs n * row_size"
  let ?b = "row_count height nprocs n * row_size"
  have "concat (map F [0..<Suc n]) = map G [0..<?a] @ map (\<lambda>x. G (?a + x)) [0..<?b]"
    using Suc by simp
  also have "map (\<lambda>x. G (?a + x)) [0..<?b] = map G [?a..<?a + ?b]"
    by (simp add: map_add_upt [symmetric] add.commute)
  also have "map G [0..<?a] @ map G [?a..<?a + ?b] = map G [0..<?a + ?b]"
    unfolding map_append [symmetric] by (simp add: upt_add_eq_append [of 0])
  finally show ?case by (simp add: row_start_Suc algebra_simps)
qed

lemma mpi_main_pointwise:
  assumes "0 \<le> height" "1 \<le> nprocs"
      and "length full = nat height * (width * channels)"
      and "\<And>r. r < nat nprocs \<Longrightarrow>
             mpi_rank_filter filter_type nprocs height width channels
               (map (band_of height nprocs (width * channels) full) [0..<nat nprocs]) (int r)
             = Inr (F r)"
      and "\<And>r. r < nat nprocs \<Longrightarrow>
             F r = map (\<lambda>x. G (row_start height nprocs r * (width * channels) + x))
                     [0..<row_count height nprocs r * (width * channels)]"
  shows "mpi_main filter_type nprocs width height channels full
         = Inr (map G [0..<length full])"
proof -
  have "mpi_main filter_type nprocs width height channels full
        = Inr (concat (map F [0..<nat nprocs]))"
    by (rule mpi_main_concat [OF assms(1-4)]) (simp_all add: assms(5))
  also have "concat (map F [0..<nat nprocs])
             = map G [0..<row_start height nprocs (nat nprocs) * (width * channels)]"
    by (rule concat_bands_map) (rule assms(5))
  finally show ?thesis by (simp add: row_start_total [OF assms(1,2)] assms(3))
qed

text \<open>The pointwise filters.\<close>

lemma brightness_filter_mpi_map:
  assumes "length band = local_height * width * channels"
  shows "brightness_filter_mpi band local_height width channels b = map (brighten_byte b) band"
proof (rule nth_equalityI)
  show len: "length (brightness_filter_mpi band local_height width channels b)
        = length (map (brighten_byte b) band)"
    by (simp add: brightness_filter_mpi_def Let_def for_loop_length)
  fix k
  assume "k < length (brightness_filter_mpi band local_height width channels b)"
  then have k: "k < length band" using len by simp
  show "brightness_filter_mpi band local_height width channels b ! k
        = map (brighten_byte b) band ! k"
    using k assms by (simp add: brightness_filter_mpi_nth [OF k])
qed

lemma mpi_rank_filter_brighten:
  assumes "0 \<le> height" "1 \<le> nprocs" "r < nat nprocs"
      and "length full = nat height * (width * channels)"
  shows "mpi_rank_filter ''brighten'' nprocs height width channels
           (map (band_of height nprocs (width * channels) full) [0..<nat nprocs]) (int r)
         = Inr (map (brighten_byte 50) (band_of height nprocs (width * channels) full r))"
proof -
  have "length (band_of height nprocs (width * channels) full r)
        = row_count height nprocs r * width * channels"
    using length_band_of [OF assms] by (simp add: mult.assoc)
  then show ?thesis
    using assms(3)
    by (simp add: mpi_rank_filter_def Let_def row_count_def [symmetric]
                  brightness_filter_mpi_map)
qed

lemma mpi_main_brighten:
  assumes "0 \<le> height" "1 \<le> nprocs"
      and "length full = nat height * (width * channels)"
  shows "mpi_main ''brighten'' nprocs width height channels full
         = Inr (map (brighten_byte 50) full)"
proof -
  have "mpi_main ''brighten'' nprocs width height channels full
        = Inr (map (\<lambda>k. brighten_byte 50 (full ! k)) [0..<length full])"
  proof (rule mpi_main_pointwise [OF assms])
    fix r assume r: "r < nat nprocs"
    show "mpi_rank_filter ''brighten'' nprocs height width channels
            (map (band_of height nprocs (width * channels) full) [0..<nat nprocs]) (int r)
          = Inr (map (brighten_byte 50) (band_of height nprocs (width * channels) full r))"
      by (rule mpi_rank_filter_brighten [OF assms(1,2) r assms(3)])
    show "map (brighten_byte 50) (band_of height nprocs (width * channels) full r)
          = map (\<lambda>x. brighten_byte 50 (full ! (row_start height nprocs r * (width * channels) + x)))
              [0..<row_count height nprocs r * (width * channels)]"
      by (rule nth_equalityI)
         (simp_all add: length_band_of [OF assms(1,2) r assms(3)]
                        nth_band_of [OF assms(1,2) r assms(3)])
  qed
  also have "map (\<lambda>k. brighten_byte 50 (full ! k)) [0..<length full]
             = map (brighten_byte 50) full"
    by (rule nth_equalityI) simp_all
  finally show ?thesis .
qed

lemma gray_out_band:
  assumes "0 \<le> height" "1 \<le> nprocs" "r < nat nprocs"
      and "length full = nat height * (width * channels)"
      and x: "x < row_count height nprocs r * (width * channels)"
  shows "gray_out (band_of height nprocs (width * channels) full r)
                  (band_of height nprocs (width * channels) full r) channels x
         = gray_out full full channels (row_start height nprocs r * (width * channels) + x)"
proof -
  let ?o = "row_start height nprocs r * (width * channels)"
  let ?L = "row_count height nprocs r * (width * channels)"
  let ?idx = "(x div channels) * channels"
  have C: "0 < channels" using x by (auto intro: Nat.gr0I)
  have "x div channels < row_count height nprocs r * width"
    using x C by (simp add: less_mult_imp_div_less mult.assoc [symmetric])
  then have "Suc (x div channels) \<le> row_count height nprocs r * width" by simp
  then have "Suc (x div channels) * channels \<le> row_count height nprocs r * width * channels"
    by (rule mult_le_mono1)
  then have top: "?idx + channels \<le> ?L" by (simp add: algebra_simps)
  have dv: "(?o + x) div channels = row_start height nprocs r * width + x div channels"
    using C by (simp add: mult.assoc [symmetric])
  have md: "(?o + x) mod channels = x mod channels"
    by (simp add: mult.assoc [symmetric])
  have gi: "((?o + x) div channels) * channels = ?o + ?idx"
    unfolding dv by (simp add: algebra_simps)
  note nb = nth_band_of [OF assms(1-4)]
  have b0: "band_of height nprocs (width * channels) full r ! ?idx = full ! (?o + ?idx)"
    using top C by (intro nb) linarith
  have b1: "1 < channels \<Longrightarrow>
            band_of height nprocs (width * channels) full r ! (?idx + 1) = full ! (?o + (?idx + 1))"
    using top by (intro nb) linarith
  have b2: "2 < channels \<Longrightarrow>
            band_of height nprocs (width * channels) full r ! (?idx + 2) = full ! (?o + (?idx + 2))"
    using top by (intro nb) linarith
  have bx: "band_of height nprocs (width * channels) full r ! x = full ! (?o + x)"
    using x by (rule nb)
  show ?thesis
    unfolding gray_out_def Let_def gi md
    using b0 b1 b2 bx by (simp add: add.assoc)
qed

lemma mpi_rank_filter_grayscale:
  assumes "0 \<le> height" "1 \<le> nprocs" "r < nat nprocs"
  shows "mpi_rank_filter ''grayscale'' nprocs height width channels
           (map (band_of height nprocs (width * channels) full) [0..<nat nprocs]) (int r)
         = Inr (grayscale_filter_mpi (band_of height nprocs (width * channels) full r)
                  (row_count height nprocs r) width channels)"
  using assms(3) by (simp add: mpi_rank_filter_def Let_def row_count_def [symmetric])

lemma length_grayscale_filter_mpi:
  "length (grayscale_filter_mpi band local_height width channels) = length band"
  unfolding grayscale_filter_mpi_def
  by (intro for_loop_length) (simp_all add: length_grayscale_body_mpi)

lemma mpi_main_grayscale:
  assumes "0 \<le> height" "1 \<le> nprocs"
      and "length full = nat height * (width * channels)"
  shows "mpi_main ''grayscale'' nprocs width height channels full
         = Inr (map (gray_out full full channels) [0..<length full])"
proof (rule mpi_main_pointwise [OF assms])
  fix r assume r: "r < nat nprocs"
  let ?band = "band_of height nprocs (width * channels) full r"
  show "mpi_rank_filter ''grayscale'' nprocs height width channels
          (map (band_of height nprocs (width * channels) full) [0..<nat nprocs]) (int r)
        = Inr (grayscale_filter_mpi ?band (row_count height nprocs r) width channels)"
    by (rule mpi_rank_filter_grayscale [OF assms(1,2) r])
  have len: "length ?band = row_count height nprocs r * width * channels"
    using length_band_of [OF assms(1,2) r assms(3)] by (simp add: mult.assoc)
  show "grayscale_filter_mpi ?band (row_count height nprocs r) width channels
        = map (\<lambda>x. gray_out full full channels
                      (row_start height nprocs r * (width * channels) + x))
            [0..<row_count height nprocs r * (width * channels)]"
  proof (rule nth_equalityI)
    show "length (grayscale_filter_mpi ?band (row_count height nprocs r) width channels)
          = length (map (\<lambda>x. gray_out full full channels
                                 (row_start height nprocs r * (width * channels) + x))
                      [0..<row_count height nprocs r * (width * channels)])"
      by (simp add: length_grayscale_filter_mpi len mult.assoc)
    fix x
    assume "x < length (grayscale_filter_mpi ?band (row_count height nprocs r) width channels)"
    then have x: "x < row_count height nprocs r * (width * channels)"
      by (simp add: length_grayscale_filter_mpi len mult.assoc)
    then have x': "x < row_count height nprocs r * width * channels"
      by (simp add: mult.assoc)
    show "grayscale_filter_mpi ?band (row_count height nprocs r) width channels ! x
          = map (\<lambda>x. gray_out full full channels
                        (row_start height nprocs r * (width * channels) + x))
              [0..<row_count height nprocs r * (width * channels)] ! x"
      using x
      by (simp add: grayscale_filter_mpi_nth [OF len x']
                    gray_out_band [OF assms(1,2) r assms(3) x])
  qed
qed

section \<open>The stencil filters along the partition\<close>

text \<open>
  The stencil filters, when every rank has at least one row.  First the rows that a rank
  skips: they are the first and the last row of the image.
\<close>

lemma row_count_pos:
  assumes "1 \<le> nprocs" "nprocs \<le> height"
  shows "1 \<le> row_count height nprocs r"
  using local_height_of_pos [OF assms, of "int r"] by (simp add: row_count_def)

lemma row_start_less:
  assumes "1 \<le> nprocs" "nprocs \<le> height" "r < r'"
  shows "row_start height nprocs r < row_start height nprocs r'"
proof -
  have "row_start height nprocs (Suc r) \<le> row_start height nprocs r'"
    using assms(3) by (intro row_start_mono) simp
  then show ?thesis
    using row_count_pos [OF assms(1,2), of r] by (simp add: row_start_Suc)
qed

lemma skip_row_global:
  assumes "1 \<le> nprocs" "nprocs \<le> height" "r < nat nprocs" "i < row_count height nprocs r"
  shows "skip_row (row_count height nprocs r) (int r) nprocs i \<longleftrightarrow>
         row_start height nprocs r + i = 0 \<or> row_start height nprocs r + i = nat height - 1"
proof -
  have H: "0 \<le> height" using assms by simp
  have tot: "row_start height nprocs (nat nprocs) = nat height"
    by (rule row_start_total [OF H assms(1)])
  have z: "row_start height nprocs r = 0 \<longleftrightarrow> r = 0"
  proof
    assume a: "row_start height nprocs r = 0"
    show "r = 0"
    proof (rule ccontr)
      assume "r \<noteq> 0"
      then have "row_start height nprocs 0 < row_start height nprocs r"
        by (intro row_start_less [OF assms(1,2)]) simp
      then show False using a by simp
    qed
  qed (simp add: row_start_def)
  have last: "row_start height nprocs r + i = nat height - 1 \<longleftrightarrow>
              Suc r = nat nprocs \<and> Suc i = row_count height nprocs r"
  proof
    assume a: "row_start height nprocs r + i = nat height - 1"
    have "1 \<le> nat height" using assms by simp
    then have b: "row_start height nprocs r + Suc i = nat height" using a by simp
    have s: "Suc r = nat nprocs"
    proof (rule ccontr)
      assume "Suc r \<noteq> nat nprocs"
      then have "Suc r < nat nprocs" using assms(3) by simp
      then have "row_start height nprocs (Suc r) < row_start height nprocs (nat nprocs)"
        by (rule row_start_less [OF assms(1,2)])
      then show False using b assms(4) by (simp add: tot row_start_Suc)
    qed
    have "row_start height nprocs r + row_count height nprocs r = nat height"
      using tot by (simp add: s [symmetric] row_start_Suc)
    then show "Suc r = nat nprocs \<and> Suc i = row_count height nprocs r"
      using b s by simp
  next
    assume a: "Suc r = nat nprocs \<and> Suc i = row_count height nprocs r"
    have "row_start height nprocs r + row_count height nprocs r = nat height"
      using tot a by (simp add: row_start_Suc [symmetric])
    then show "row_start height nprocs r + i = nat height - 1" using a by linarith
  qed
  have r1: "int r = nprocs - 1 \<longleftrightarrow> Suc r = nat nprocs" using assms(1) by auto
  have r2: "int i = int (row_count height nprocs r) - 1 \<longleftrightarrow> Suc i = row_count height nprocs r"
    by auto
  show ?thesis
    unfolding skip_row_def last r1 r2 by (simp add: z)
qed

text \<open>The halo rows of a rank, read from the image.\<close>

definition halo_top_of :: "int \<Rightarrow> int \<Rightarrow> nat \<Rightarrow> byte list \<Rightarrow> nat \<Rightarrow> byte list" where
  "halo_top_of height nprocs row_size full r =
     (if 0 < r
      then take row_size (drop ((row_count height nprocs (r - 1) - 1) * row_size)
                            (band_of height nprocs row_size full (r - 1)))
      else replicate row_size 0)"

definition halo_bottom_of :: "int \<Rightarrow> int \<Rightarrow> nat \<Rightarrow> byte list \<Rightarrow> nat \<Rightarrow> byte list" where
  "halo_bottom_of height nprocs row_size full r =
     (if Suc r < nat nprocs then take row_size (band_of height nprocs row_size full (Suc r))
      else replicate row_size 0)"

lemma halo_exchange_bands:
  assumes "1 \<le> nprocs" "nprocs \<le> height" "r < nat nprocs"
      and "length full = nat height * (width * channels)"
  shows "halo_exchange nprocs (int width * int channels) (local_height_of height nprocs)
           (map (band_of height nprocs (width * channels) full) [0..<nat nprocs]) (int r)
         = Inr (halo_top_of height nprocs (width * channels) full r,
                halo_bottom_of height nprocs (width * channels) full r)"
proof -
  let ?bands = "map (band_of height nprocs (width * channels) full) [0..<nat nprocs]"
  have H: "0 \<le> height" using assms by simp
  have wf: "\<forall>k. 0 \<le> k \<and> k < nprocs \<longrightarrow>
              1 \<le> local_height_of height nprocs k \<and>
              int (length (?bands ! nat k))
                = local_height_of height nprocs k * (int width * int channels)"
  proof (intro allI impI conjI)
    fix k :: int
    assume k: "0 \<le> k \<and> k < nprocs"
    show "1 \<le> local_height_of height nprocs k"
      by (rule local_height_of_pos [OF assms(1,2)])
    have kn: "nat k < nat nprocs" using k by simp
    have "int (length (?bands ! nat k))
          = int (row_count height nprocs (nat k)) * (int width * int channels)"
      using kn by (simp add: length_band_of [OF H assms(1) kn assms(4)])
    then show "int (length (?bands ! nat k))
               = local_height_of height nprocs k * (int width * int channels)"
      using k by (simp add: int_row_count [OF H assms(1)])
  qed
  have wf': "\<forall>k. 0 \<le> k \<and> k < nprocs \<and> int r - 1 \<le> k \<and> k \<le> int r + 1 \<longrightarrow>
               1 \<le> local_height_of height nprocs k \<and>
               int (length (?bands ! nat k))
                 = local_height_of height nprocs k * (int width * int channels)"
    using wf by blast
  have rs: "nat (int width * int channels) = width * channels"
    by (simp add: nat_mult_distrib)
  have top: "take (nat (int width * int channels))
               (drop (nat ((local_height_of height nprocs (int r - 1) - 1)
                             * (int width * int channels)))
                  (?bands ! nat (int r - 1)))
             = take (width * channels)
                 (drop ((row_count height nprocs (r - 1) - 1) * (width * channels))
                    (band_of height nprocs (width * channels) full (r - 1)))" if "0 < r"
  proof -
    have a: "int r - 1 = int (r - 1)" using that by simp
    have b: "nat ((int (row_count height nprocs (r - 1)) - 1) * (int width * int channels))
             = (row_count height nprocs (r - 1) - 1) * (width * channels)"
    proof -
      have "int (row_count height nprocs (r - 1)) - 1 = int (row_count height nprocs (r - 1) - 1)"
        using row_count_pos [OF assms(1,2), of "r - 1"] by simp
      then show ?thesis
        by (simp only: of_nat_mult [symmetric] nat_int)
    qed
    have c: "r - 1 < nat nprocs" using assms(3) by simp
    show ?thesis
      unfolding rs a int_row_count [OF H assms(1), symmetric] b nat_int
      using c by simp
  qed
  have bot: "?bands ! nat (int r + 1) = band_of height nprocs (width * channels) full (Suc r)"
    if "Suc r < nat nprocs"
  proof -
    have "nat (int r + 1) = Suc r" by simp
    then show ?thesis using that by simp
  qed
  have c1: "int r < nprocs - 1 \<longleftrightarrow> Suc r < nat nprocs" using assms(1) by auto
  have r0: "0 \<le> int r" "int r < nprocs" using assms(3) by simp_all
  show ?thesis
    unfolding halo_exchange_value [OF r0 _ wf', simplified] halo_top_of_def halo_bottom_of_def
    using top bot by (simp add: c1 rs)
qed

text \<open>
  A neighbour of a pixel in a row that is not skipped, whether the rank reads it from its
  band or from a halo row, is the byte of the image at the neighbour's place.
\<close>

lemma neighbour_byte_global:
  assumes N: "1 \<le> nprocs" "nprocs \<le> height" and r: "r < nat nprocs"
      and len: "length full = nat height * (width * channels)"
      and i: "i < row_count height nprocs r"
      and ns: "\<not> skip_row (row_count height nprocs r) (int r) nprocs i"
      and j: "1 \<le> j" "j < width - 1" and c: "c < channels"
      and di: "di \<in> set offsets3" and dj: "dj \<in> set offsets3"
  shows "neighbour_byte (band_of height nprocs (width * channels) full r)
           (halo_top_of height nprocs (width * channels) full r)
           (halo_bottom_of height nprocs (width * channels) full r)
           (row_count height nprocs r) width channels (int i + di) (int j + dj) c
         = full ! nat (((int (row_start height nprocs r + i) + di) * int width + (int j + dj))
                         * int channels + int c)"
proof -
  let ?RS = "width * channels"
  let ?a = "row_start height nprocs r"
  let ?lh = "row_count height nprocs r"
  have H: "0 \<le> height" using N by simp
  define j' where "j' = nat (int j + dj)"
  have dj': "dj = -1 \<or> dj = 0 \<or> dj = 1" and di': "di = -1 \<or> di = 0 \<or> di = 1"
    using di dj by (auto simp: offsets3_def)
  have j'1: "int j + dj = int j'" using j dj' by (auto simp: j'_def)
  have j'2: "j' < width" using j dj' by (auto simp: j'_def)
  define y where "y = j' * channels + c"
  have "Suc j' * channels \<le> width * channels"
    using j'2 by (intro mult_le_mono1) simp
  then have y: "y < ?RS" using c by (simp add: y_def)
  have yi: "nat (int j' * int channels + int c) = y"
    unfolding y_def of_nat_mult [symmetric] of_nat_add [symmetric] nat_int ..
  show ?thesis
  proof (cases "int i + di < 0")
    case True
    then have i0: "i = 0" and dm: "di = -1" using di' by auto
    have r0: "0 < r" using ns i0 by (auto simp: skip_row_def)
    let ?p = "r - 1"
    have p: "?p < nat nprocs" using r by simp
    have sp: "Suc ?p = r" using r0 by simp
    have lp: "1 \<le> row_count height nprocs ?p" by (rule row_count_pos [OF N])
    have a: "?a = row_start height nprocs ?p + row_count height nprocs ?p"
      using row_start_Suc [of height nprocs ?p] by (simp only: sp)
    have lb: "length (band_of height nprocs ?RS full ?p) = row_count height nprocs ?p * ?RS"
      by (rule length_band_of [OF H N(1) p len])
    obtain m where m: "row_count height nprocs ?p = Suc m"
      using lp by (cases "row_count height nprocs ?p") simp_all
    have "(row_count height nprocs ?p - 1) * ?RS + ?RS = row_count height nprocs ?p * ?RS"
      unfolding m by simp
    then have in_band: "(row_count height nprocs ?p - 1) * ?RS + y < row_count height nprocs ?p * ?RS"
      using y by linarith
    have "halo_top_of height nprocs ?RS full r ! y
          = band_of height nprocs ?RS full ?p ! ((row_count height nprocs ?p - 1) * ?RS + y)"
      using r0 y in_band lb by (simp add: halo_top_of_def)
    also have "\<dots> = full ! (row_start height nprocs ?p * ?RS
                             + ((row_count height nprocs ?p - 1) * ?RS + y))"
      by (rule nth_band_of [OF H N(1) p len in_band])
    also have "row_start height nprocs ?p * ?RS + ((row_count height nprocs ?p - 1) * ?RS + y)
               = (?a - 1) * ?RS + y"
      unfolding a m by (simp add: algebra_simps)
    finally have lhs: "halo_top_of height nprocs ?RS full r ! y = full ! ((?a - 1) * ?RS + y)" .
    have a1: "1 \<le> ?a" using lp unfolding a by simp
    have "int (?a + i) + di = int (?a - 1)" using a1 by (simp add: i0 dm)
    then have "nat (((int (?a + i) + di) * int width + (int j + dj)) * int channels + int c)
               = nat (int (((?a - 1) * width + j') * channels + c))"
      unfolding j'1 by (simp only: of_nat_mult of_nat_add)
    also have "\<dots> = (?a - 1) * ?RS + y"
      by (simp only: nat_int y_def add_mult_distrib mult.assoc add.assoc)
    finally show ?thesis
      using True lhs by (simp add: neighbour_byte_def j'1 yi)
  next
    case False
    show ?thesis
    proof (cases "int ?lh \<le> int i + di")
      case True
      then have il: "Suc i = ?lh" and dp: "di = 1" using di' i by auto
      have sr: "Suc r < nat nprocs"
      proof (rule ccontr)
        assume "\<not> Suc r < nat nprocs"
        then have "int r = nprocs - 1" using r by auto
        then show False using ns il by (auto simp: skip_row_def)
      qed
      have ls: "1 \<le> row_count height nprocs (Suc r)" by (rule row_count_pos [OF N])
      have "1 * ?RS \<le> row_count height nprocs (Suc r) * ?RS"
        using ls by (intro mult_le_mono1)
      then have in_band: "y < row_count height nprocs (Suc r) * ?RS"
        using y unfolding mult_1 by linarith
      have "halo_bottom_of height nprocs ?RS full r ! y = band_of height nprocs ?RS full (Suc r) ! y"
        using sr y by (simp add: halo_bottom_of_def)
      also have "\<dots> = full ! (row_start height nprocs (Suc r) * ?RS + y)"
        by (rule nth_band_of [OF H N(1) sr len in_band])
      finally have lhs: "halo_bottom_of height nprocs ?RS full r ! y
                         = full ! ((?a + ?lh) * ?RS + y)"
        by (simp add: row_start_Suc)
      have "int (?a + i) + di = int (?a + ?lh)" using il dp by simp
      then have "nat (((int (?a + i) + di) * int width + (int j + dj)) * int channels + int c)
                 = nat (int (((?a + ?lh) * width + j') * channels + c))"
        unfolding j'1 by (simp only: of_nat_mult of_nat_add)
      also have "\<dots> = (?a + ?lh) * ?RS + y"
        by (simp only: nat_int y_def add_mult_distrib mult.assoc add.assoc)
      finally show ?thesis
        using True False lhs by (simp add: neighbour_byte_def j'1 yi)
    next
      case F2: False
      define i' where "i' = nat (int i + di)"
      have i'1: "int i + di = int i'" using False by (simp add: i'_def)
      have i'2: "i' < ?lh" using F2 False unfolding i'_def by linarith
      have "Suc i' * ?RS \<le> ?lh * ?RS" using i'2 by (intro mult_le_mono1) simp
      then have in_band: "i' * ?RS + y < ?lh * ?RS" using y by simp
      have "nat ((int i' * int width + int j') * int channels + int c) = i' * ?RS + y"
        unfolding of_nat_mult [symmetric] of_nat_add [symmetric] nat_int
        by (simp add: y_def algebra_simps)
      then have "neighbour_byte (band_of height nprocs ?RS full r)
                   (halo_top_of height nprocs ?RS full r)
                   (halo_bottom_of height nprocs ?RS full r) ?lh width channels
                   (int i + di) (int j + dj) c
                 = band_of height nprocs ?RS full r ! (i' * ?RS + y)"
        using False F2 by (simp add: neighbour_byte_def j'1 i'1)
      also have "\<dots> = full ! (?a * ?RS + (i' * ?RS + y))"
        by (rule nth_band_of [OF H N(1) r len in_band])
      finally have lhs: "neighbour_byte (band_of height nprocs ?RS full r)
                   (halo_top_of height nprocs ?RS full r)
                   (halo_bottom_of height nprocs ?RS full r) ?lh width channels
                   (int i + di) (int j + dj) c = full ! ((?a + i') * ?RS + y)"
        by (simp add: algebra_simps)
      have "int (?a + i) + di = int (?a + i')" using i'1 by simp
      then have "nat (((int (?a + i) + di) * int width + (int j + dj)) * int channels + int c)
                 = nat (int (((?a + i') * width + j') * channels + c))"
        unfolding j'1 by (simp only: of_nat_mult of_nat_add)
      also have "\<dots> = (?a + i') * ?RS + y"
        by (simp only: nat_int y_def add_mult_distrib mult.assoc add.assoc)
      finally show ?thesis using lhs by simp
    qed
  qed
qed

lemma blur_sum_mpi_global:
  assumes N: "1 \<le> nprocs" "nprocs \<le> height" and r: "r < nat nprocs"
      and len: "length full = nat height * (width * channels)"
      and i: "i < row_count height nprocs r"
      and ns: "\<not> skip_row (row_count height nprocs r) (int r) nprocs i"
      and j: "1 \<le> j" "j < width - 1" and c: "c < channels"
  shows "blur_sum_mpi (band_of height nprocs (width * channels) full r)
           (halo_top_of height nprocs (width * channels) full r)
           (halo_bottom_of height nprocs (width * channels) full r)
           (row_count height nprocs r) width channels i j c
         = blur_sum full width channels (row_start height nprocs r + i) j c"
  unfolding blur_sum_mpi_def blur_sum_def Let_def
  by (intro fold_cong refl ext)
     (simp only: neighbour_byte_global [OF N r len i ns j c])

lemma sobel_sums_mpi_global:
  assumes N: "1 \<le> nprocs" "nprocs \<le> height" and r: "r < nat nprocs"
      and len: "length full = nat height * (width * channels)"
      and i: "i < row_count height nprocs r"
      and ns: "\<not> skip_row (row_count height nprocs r) (int r) nprocs i"
      and j: "1 \<le> j" "j < width - 1" and c: "0 < channels"
  shows "sobel_sums_mpi (band_of height nprocs (width * channels) full r)
           (halo_top_of height nprocs (width * channels) full r)
           (halo_bottom_of height nprocs (width * channels) full r)
           (row_count height nprocs r) width channels i j
         = sobel_sums full width channels (row_start height nprocs r + i) j"
  unfolding sobel_sums_mpi_def sobel_sums_def Let_def
  by (intro fold_cong refl ext)
     (simp add: neighbour_byte_global [OF N r len i ns j c])

text \<open>
  The byte at position \<open>k\<close> of the output of a stencil filter on the whole image: the
  stencil value \<open>V\<close> in the interior, the input byte on the border.
\<close>

definition stencil_out ::
  "(nat \<Rightarrow> nat \<Rightarrow> nat \<Rightarrow> byte) \<Rightarrow> byte list \<Rightarrow> nat \<Rightarrow> nat \<Rightarrow> nat \<Rightarrow> nat \<Rightarrow> byte" where
  "stencil_out V full width height channels k =
     (let i = k div channels div width; j = k div channels mod width
      in if 1 \<le> i \<and> i < height - 1 \<and> 1 \<le> j \<and> j < width - 1
         then V i j (k mod channels) else full ! k)"

lemma stencil_rows_band:
  assumes N: "1 \<le> nprocs" "nprocs \<le> height" and r: "r < nat nprocs"
      and len: "length full = nat height * (width * channels)"
      and W: "0 < width" and C: "0 < channels"
      and V: "\<And>i j c. i < row_count height nprocs r \<Longrightarrow>
                \<not> skip_row (row_count height nprocs r) (int r) nprocs i \<Longrightarrow>
                1 \<le> j \<Longrightarrow> j < width - 1 \<Longrightarrow> c < channels \<Longrightarrow>
                V i j c = V' (row_start height nprocs r + i) j c"
  shows "stencil_rows (skip_row (row_count height nprocs r) (int r) nprocs) V
           (row_count height nprocs r) width channels
           (band_of height nprocs (width * channels) full r)
         = map (\<lambda>x. stencil_out V' full width (nat height) channels
                       (row_start height nprocs r * (width * channels) + x))
             [0..<row_count height nprocs r * (width * channels)]"
proof -
  let ?RS = "width * channels"
  let ?a = "row_start height nprocs r"
  let ?lh = "row_count height nprocs r"
  let ?band = "band_of height nprocs ?RS full r"
  let ?skip = "skip_row ?lh (int r) nprocs"
  have H: "0 \<le> height" using N by simp
  have lb: "length ?band = ?lh * ?RS" by (rule length_band_of [OF H N(1) r len])
  note st = stencil_rows_nth [OF C W, of ?skip V ?lh ?band]
  show ?thesis
  proof (rule nth_equalityI)
    show "length (stencil_rows ?skip V ?lh width channels ?band)
          = length (map (\<lambda>x. stencil_out V' full width (nat height) channels (?a * ?RS + x))
                      [0..<?lh * ?RS])"
      using st lb by simp
    fix x
    assume "x < length (stencil_rows ?skip V ?lh width channels ?band)"
    then have x: "x < ?lh * ?RS" using st lb by simp
    let ?i = "x div channels div width" and ?j = "x div channels mod width"
    have dv: "(?a * ?RS + x) div channels = ?a * width + x div channels"
      using C by (simp add: mult.assoc [symmetric])
    have gi: "(?a * ?RS + x) div channels div width = ?a + ?i"
      unfolding dv using W by simp
    have gj: "(?a * ?RS + x) div channels mod width = ?j"
      unfolding dv by simp
    have gc: "(?a * ?RS + x) mod channels = x mod channels"
      by (simp add: mult.assoc [symmetric])
    have "x div channels < ?lh * width"
      using x C by (simp add: less_mult_imp_div_less mult.assoc [symmetric])
    then have i: "?i < ?lh"
      using W by (simp add: less_mult_imp_div_less)
    have sk: "?skip ?i \<longleftrightarrow> \<not> (1 \<le> ?a + ?i \<and> ?a + ?i < nat height - 1)"
    proof -
      have "?a + ?i < nat height" using row_range [OF H N(1) r] i by simp
      then show ?thesis
        unfolding skip_row_global [OF N r i] by auto
    qed
    have bx: "?band ! x = full ! (?a * ?RS + x)"
      by (rule nth_band_of [OF H N(1) r len x])
    have own: "V ?i ?j (x mod channels) = V' (?a + ?i) ?j (x mod channels)"
      if "\<not> ?skip ?i" "1 \<le> ?j" "?j < width - 1"
      using i that C by (intro V) simp_all
    have "stencil_rows ?skip V ?lh width channels ?band ! x
          = (if ?i < ?lh \<and> \<not> ?skip ?i \<and> 1 \<le> ?j \<and> ?j < width - 1
             then V ?i ?j (x mod channels) else ?band ! x)"
      using st x lb by simp
    also have "\<dots> = stencil_out V' full width (nat height) channels (?a * ?RS + x)"
      unfolding stencil_out_def Let_def gi gj gc
      using i sk own bx by auto
    finally show "stencil_rows ?skip V ?lh width channels ?band ! x
          = map (\<lambda>x. stencil_out V' full width (nat height) channels (?a * ?RS + x))
              [0..<?lh * ?RS] ! x"
      using x by simp
  qed
qed

lemma mpi_rank_filter_blur:
  assumes "1 \<le> nprocs" "nprocs \<le> height" "r < nat nprocs"
      and "length full = nat height * (width * channels)"
  shows "mpi_rank_filter ''blur'' nprocs height width channels
           (map (band_of height nprocs (width * channels) full) [0..<nat nprocs]) (int r)
         = Inr (stencil_rows (skip_row (row_count height nprocs r) (int r) nprocs)
                  (\<lambda>i j c. to_uchar
                     (blur_sum_mpi (band_of height nprocs (width * channels) full r)
                        (halo_top_of height nprocs (width * channels) full r)
                        (halo_bottom_of height nprocs (width * channels) full r)
                        (row_count height nprocs r) width channels i j c))
                  (row_count height nprocs r) width channels
                  (band_of height nprocs (width * channels) full r))"
  using assms(3)
  by (simp add: mpi_rank_filter_def Let_def halo_exchange_bands [OF assms] bind_err_def
                row_count_def [symmetric] gaussian_blur_filter_mpi_rows)

lemma mpi_rank_filter_edge:
  assumes "1 \<le> nprocs" "nprocs \<le> height" "r < nat nprocs"
      and "length full = nat height * (width * channels)"
  shows "mpi_rank_filter ''edge'' nprocs height width channels
           (map (band_of height nprocs (width * channels) full) [0..<nat nprocs]) (int r)
         = Inr (stencil_rows (skip_row (row_count height nprocs r) (int r) nprocs)
                  (\<lambda>i j c. edge_value_of
                     (sobel_sums_mpi (band_of height nprocs (width * channels) full r)
                        (halo_top_of height nprocs (width * channels) full r)
                        (halo_bottom_of height nprocs (width * channels) full r)
                        (row_count height nprocs r) width channels i j))
                  (row_count height nprocs r) width channels
                  (band_of height nprocs (width * channels) full r))"
  using assms(3)
  by (simp add: mpi_rank_filter_def Let_def halo_exchange_bands [OF assms] bind_err_def
                row_count_def [symmetric] sobel_edge_filter_mpi_rows)

text \<open>
  The gathered image of the four filters, for every number of ranks that leaves no rank
  without a row (any number of ranks for the two pointwise filters, see above): the right-hand
  sides do not mention \<open>nprocs\<close>.
\<close>

lemma mpi_main_blur:
  assumes N: "1 \<le> nprocs" "nprocs \<le> height"
      and len: "length full = nat height * (width * channels)"
      and W: "0 < width" and C: "0 < channels"
  shows "mpi_main ''blur'' nprocs width height channels full
         = Inr (map (stencil_out (\<lambda>i j c. to_uchar (blur_sum full width channels i j c))
                       full width (nat height) channels) [0..<length full])"
proof -
  have H: "0 \<le> height" using N by simp
  show ?thesis
  proof (rule mpi_main_pointwise [OF H N(1) len])
    fix r assume r: "r < nat nprocs"
    show "mpi_rank_filter ''blur'' nprocs height width channels
            (map (band_of height nprocs (width * channels) full) [0..<nat nprocs]) (int r)
          = Inr (stencil_rows (skip_row (row_count height nprocs r) (int r) nprocs)
                  (\<lambda>i j c. to_uchar
                     (blur_sum_mpi (band_of height nprocs (width * channels) full r)
                        (halo_top_of height nprocs (width * channels) full r)
                        (halo_bottom_of height nprocs (width * channels) full r)
                        (row_count height nprocs r) width channels i j c))
                  (row_count height nprocs r) width channels
                  (band_of height nprocs (width * channels) full r))"
      by (rule mpi_rank_filter_blur [OF N r len])
    show "stencil_rows (skip_row (row_count height nprocs r) (int r) nprocs)
            (\<lambda>i j c. to_uchar
               (blur_sum_mpi (band_of height nprocs (width * channels) full r)
                  (halo_top_of height nprocs (width * channels) full r)
                  (halo_bottom_of height nprocs (width * channels) full r)
                  (row_count height nprocs r) width channels i j c))
            (row_count height nprocs r) width channels
            (band_of height nprocs (width * channels) full r)
          = map (\<lambda>x. stencil_out (\<lambda>i j c. to_uchar (blur_sum full width channels i j c))
                        full width (nat height) channels
                        (row_start height nprocs r * (width * channels) + x))
              [0..<row_count height nprocs r * (width * channels)]"
      by (rule stencil_rows_band [OF N r len W C])
         (rule arg_cong [where f = to_uchar], rule blur_sum_mpi_global [OF N r len])
  qed
qed

lemma mpi_main_edge:
  assumes N: "1 \<le> nprocs" "nprocs \<le> height"
      and len: "length full = nat height * (width * channels)"
      and W: "0 < width" and C: "0 < channels"
  shows "mpi_main ''edge'' nprocs width height channels full
         = Inr (map (stencil_out (\<lambda>i j c. edge_value_of (sobel_sums full width channels i j))
                       full width (nat height) channels) [0..<length full])"
proof -
  have H: "0 \<le> height" using N by simp
  show ?thesis
  proof (rule mpi_main_pointwise [OF H N(1) len])
    fix r assume r: "r < nat nprocs"
    show "mpi_rank_filter ''edge'' nprocs height width channels
            (map (band_of height nprocs (width * channels) full) [0..<nat nprocs]) (int r)
          = Inr (stencil_rows (skip_row (row_count height nprocs r) (int r) nprocs)
                  (\<lambda>i j c. edge_value_of
                     (sobel_sums_mpi (band_of height nprocs (width * channels) full r)
                        (halo_top_of height nprocs (width * channels) full r)
                        (halo_bottom_of height nprocs (width * channels) full r)
                        (row_count height nprocs r) width channels i j))
                  (row_count height nprocs r) width channels
                  (band_of height nprocs (width * channels) full r))"
      by (rule mpi_rank_filter_edge [OF N r len])
    show "stencil_rows (skip_row (row_count height nprocs r) (int r) nprocs)
            (\<lambda>i j c. edge_value_of
               (sobel_sums_mpi (band_of height nprocs (width * channels) full r)
                  (halo_top_of height nprocs (width * channels) full r)
                  (halo_bottom_of height nprocs (width * channels) full r)
                  (row_count height nprocs r) width channels i j))
            (row_count height nprocs r) width channels
            (band_of height nprocs (width * channels) full r)
          = map (\<lambda>x. stencil_out (\<lambda>i j c. edge_value_of (sobel_sums full width channels i j))
                        full width (nat height) channels
                        (row_start height nprocs r * (width * channels) + x))
              [0..<row_count height nprocs r * (width * channels)]"
      by (rule stencil_rows_band [OF N r len W C])
         (rule arg_cong [where f = edge_value_of], rule sobel_sums_mpi_global [OF N r len _ _ _ _ C])
  qed
qed

text \<open>
  Hence a run with \<open>nprocs\<close> ranks, none of them without a row, gathers the image that a
  run with one rank gathers, for each of the four filters.
\<close>

lemma mpi_main_any_ranks:
  assumes "1 \<le> nprocs" "nprocs \<le> height"
      and "length full = nat height * (width * channels)"
      and "0 < width" "0 < channels"
      and "filter_type \<in> {''grayscale'', ''blur'', ''edge'', ''brighten''}"
  shows "mpi_main filter_type nprocs width height channels full
         = mpi_main filter_type 1 width height channels full"
proof -
  have H: "0 \<le> height" "1 \<le> height" "(1::int) \<le> 1" using assms by simp_all
  consider "filter_type = ''grayscale''" | "filter_type = ''blur''"
    | "filter_type = ''edge''" | "filter_type = ''brighten''"
    using assms(6) by blast
  then show ?thesis
  proof cases
    case 1
    show ?thesis
      unfolding 1 mpi_main_grayscale [OF H(1) assms(1,3)] mpi_main_grayscale [OF H(1) H(3) assms(3)] ..
  next
    case 2
    show ?thesis
      unfolding 2 mpi_main_blur [OF assms(1-5)] mpi_main_blur [OF H(3) H(2) assms(3-5)] ..
  next
    case 3
    show ?thesis
      unfolding 3 mpi_main_edge [OF assms(1-5)] mpi_main_edge [OF H(3) H(2) assms(3-5)] ..
  next
    case 4
    show ?thesis
      unfolding 4 mpi_main_brighten [OF H(1) assms(1,3)] mpi_main_brighten [OF H(1) H(3) assms(3)] ..
  qed
qed

section \<open>What a filter pass reads and what it writes\<close>

lemma index_row_col:
  fixes i j c width channels :: nat
  assumes "j < width" "c < channels"
  shows "((i * width + j) * channels + c) div channels div width = i"
    and "((i * width + j) * channels + c) div channels mod width = j"
    and "((i * width + j) * channels + c) mod channels = c"
  using assms by simp_all

lemma interior_rows_nth:
  assumes "0 < channels" "0 < width"
  shows "length (for_loop 1 (height - 1) (\<lambda>i. col_loop (V i) width channels i) out) = length out \<and>
         (\<forall>k<length out. for_loop 1 (height - 1) (\<lambda>i. col_loop (V i) width channels i) out ! k
            = (if 1 \<le> k div channels div width \<and> k div channels div width < height - 1 \<and>
                  1 \<le> k div channels mod width \<and> k div channels mod width < width - 1
               then V (k div channels div width) (k div channels mod width) (k mod channels)
               else out ! k))"
proof -
  let ?row = "\<lambda>k. k div channels div width" and ?col = "\<lambda>k. k div channels mod width"
  let ?own = "\<lambda>k. if 1 \<le> ?col k \<and> ?col k < width - 1 then ?row k else 0"
  have "length (for_loop 1 (height - 1) (\<lambda>i. col_loop (V i) width channels i) out) = length out \<and>
        (\<forall>k<length out. for_loop 1 (height - 1) (\<lambda>i. col_loop (V i) width channels i) out ! k
           = (if 1 \<le> ?own k \<and> ?own k < height - 1
              then V (?row k) (?col k) (k mod channels) else out ! k))"
  proof (rule for_loop_owner)
    fix i k and t :: "byte list"
    assume i: "1 \<le> i" "i < height - 1" and k: "k < length t"
    note c = col_loop_nth [OF assms, of "V i" i t]
    show "col_loop (V i) width channels i t ! k = t ! k" if "?own k \<noteq> i"
      using that c k i by (auto split: if_splits)
    show "col_loop (V i) width channels i t ! k = V (?row k) (?col k) (k mod channels)"
      if "?own k = i"
      using that c k i by (auto split: if_splits)
  next
    show "length (col_loop (V i) width channels i t) = length t" for i and t :: "byte list"
      using col_loop_nth [OF assms, of "V i" i t] by simp
  qed
  then show ?thesis by (auto split: if_splits)
qed

lemma sobel_edge_filter_nth:
  assumes "img_data input \<noteq> img_data output"
      and "0 < img_width input" "0 < img_channels input"
      and "k < length (h (img_data output))"
  shows "sobel_edge_filter input output thread_count h (img_data output) ! k
         = (if 1 \<le> k div img_channels input div img_width input \<and>
               k div img_channels input div img_width input < img_height input - 1 \<and>
               1 \<le> k div img_channels input mod img_width input \<and>
               k div img_channels input mod img_width input < img_width input - 1
            then edge_value_of (sobel_sums (h (img_data input)) (img_width input)
                   (img_channels input) (k div img_channels input div img_width input)
                   (k div img_channels input mod img_width input))
            else h (img_data output) ! k)"
proof -
  let ?W = "img_width input" and ?C = "img_channels input" and ?H = "img_height input"
  let ?d = "h (img_data input)"
  let ?V = "\<lambda>i j (c::nat). edge_value_of (sobel_sums ?d ?W ?C i j)"
  have "sobel_edge_filter input output thread_count h
        = h(img_data output :=
              for_loop 1 (?H - 1) (\<lambda>i. col_loop (?V i) ?W ?C i) (h (img_data output)))"
    unfolding sobel_edge_filter_def Let_def col_loop_def chan_loop_def
    apply (rule for_loop_heap [OF assms(1)])
    apply (rule for_loop_heap [OF assms(1)])
    apply (simp only:)
    apply (rule for_loop_heap [OF assms(1)])
    apply (simp add: heap_write_def)
    done
  then show ?thesis
    using interior_rows_nth [OF assms(3,2), of ?H ?V "h (img_data output)"] assms(4)
    by simp
qed

lemma copy_borders_interior:
  assumes "0 < img_width input" "0 < img_channels input"
      and "1 \<le> k div img_channels input div img_width input"
          "k div img_channels input div img_width input < img_height input - 1"
          "1 \<le> k div img_channels input mod img_width input"
          "k div img_channels input mod img_width input < img_width input - 1"
  shows "copy_borders input output h (img_data output) ! k = h (img_data output) ! k"
proof -
  let ?W = "img_width input" and ?C = "img_channels input" and ?H = "img_height input"
  let ?f = "\<lambda>h :: heap. h (img_data output) ! k"
  have other: "heap_write t (img_data output) ((i * ?W + j) * ?C + c) v (img_data output) ! k
               = t (img_data output) ! k"
    if "j < ?W" "c < ?C" "i \<noteq> k div ?C div ?W \<or> j \<noteq> k div ?C mod ?W" for t i j c v
  proof -
    have "(i * ?W + j) * ?C + c \<noteq> k"
      using that index_row_col(1,2) [OF that(1,2), of i] by auto
    then show ?thesis by (simp add: heap_write_def)
  qed
  show ?thesis
    unfolding copy_borders_def Let_def
  proof (rule for_loop_preserves [where f = ?f])
    fix i and t :: heap
    show "?f (if i = 0 \<or> i = ?H - 1
             then for_loop 0 ?W (\<lambda>j. for_loop 0 ?C (\<lambda>c h.
                    heap_write h (img_data output) ((i * ?W + j) * ?C + c)
                      (h (img_data input) ! ((i * ?W + j) * ?C + c)))) t
             else for_loop 0 ?C (\<lambda>c h.
                    heap_write (heap_write h (img_data output) (i * ?W * ?C + c)
                                  (h (img_data input) ! (i * ?W * ?C + c)))
                      (img_data output) ((i * ?W + ?W - 1) * ?C + c)
                      (heap_write h (img_data output) (i * ?W * ?C + c)
                         (h (img_data input) ! (i * ?W * ?C + c))
                         (img_data input) ! ((i * ?W + ?W - 1) * ?C + c))) t)
          = ?f t"
    proof (cases "i = 0 \<or> i = ?H - 1")
      case True
      then have ne: "i \<noteq> k div ?C div ?W" using assms(3,4) by auto
      have "?f (for_loop 0 ?W (\<lambda>j. for_loop 0 ?C (\<lambda>c h.
                    heap_write h (img_data output) ((i * ?W + j) * ?C + c)
                      (h (img_data input) ! ((i * ?W + j) * ?C + c)))) t) = ?f t"
        apply (rule for_loop_preserves [where f = ?f])
        apply (rule for_loop_preserves [where f = ?f])
        apply (rule other)
        using ne apply simp_all
        done
      then show ?thesis using True by simp
    next
      case False
      have a: "heap_write u (img_data output) (i * ?W * ?C + c) v (img_data output) ! k
               = u (img_data output) ! k" if "c < ?C" for u c v
        using other [of 0 c i u v] that assms(1,5) by simp
      have b: "heap_write u (img_data output) ((i * ?W + ?W - 1) * ?C + c) v (img_data output) ! k
               = u (img_data output) ! k" if "c < ?C" for u c v
      proof -
        have "(i * ?W + ?W - 1) * ?C + c = (i * ?W + (?W - 1)) * ?C + c"
          using assms(1) by simp
        moreover have "?W - 1 \<noteq> k div ?C mod ?W" using assms(6) by simp
        ultimately show ?thesis
          using other [of "?W - 1" c i u v] that assms(1) by simp
      qed
      have "?f (for_loop 0 ?C (\<lambda>c h.
                    heap_write (heap_write h (img_data output) (i * ?W * ?C + c)
                                  (h (img_data input) ! (i * ?W * ?C + c)))
                      (img_data output) ((i * ?W + ?W - 1) * ?C + c)
                      (heap_write h (img_data output) (i * ?W * ?C + c)
                         (h (img_data input) ! (i * ?W * ?C + c))
                         (img_data input) ! ((i * ?W + ?W - 1) * ?C + c))) t) = ?f t"
        by (rule for_loop_preserves [where f = ?f]) (simp only: a b)
      then show ?thesis using False by simp
    qed
  qed
qed

lemma gaussian_blur_filter_nth:
  assumes "img_data input \<noteq> img_data output"
      and "0 < img_width input" "0 < img_channels input"
      and "k < length (h (img_data output))"
      and "1 \<le> k div img_channels input div img_width input"
          "k div img_channels input div img_width input < img_height input - 1"
          "1 \<le> k div img_channels input mod img_width input"
          "k div img_channels input mod img_width input < img_width input - 1"
  shows "gaussian_blur_filter input output thread_count h (img_data output) ! k
         = to_uchar (blur_sum (h (img_data input)) (img_width input) (img_channels input)
                       (k div img_channels input div img_width input)
                       (k div img_channels input mod img_width input)
                       (k mod img_channels input))"
proof -
  let ?W = "img_width input" and ?C = "img_channels input" and ?H = "img_height input"
  let ?d = "h (img_data input)"
  let ?V = "\<lambda>i j c. to_uchar (blur_sum ?d ?W ?C i j c)"
  have "for_loop 1 (?H - 1) (\<lambda>i. for_loop 1 (?W - 1) (\<lambda>j. for_loop 0 ?C (\<lambda>c h.
               heap_write h (img_data output) ((i * ?W + j) * ?C + c)
                 (to_uchar (blur_sum (h (img_data input)) ?W ?C i j c))))) h
        = h(img_data output :=
              for_loop 1 (?H - 1) (\<lambda>i. col_loop (?V i) ?W ?C i) (h (img_data output)))"
    unfolding col_loop_def chan_loop_def
    apply (rule for_loop_heap [OF assms(1)])
    apply (rule for_loop_heap [OF assms(1)])
    apply (rule for_loop_heap [OF assms(1)])
    apply (simp add: heap_write_def)
    done
  then have "gaussian_blur_filter input output thread_count h (img_data output) ! k
             = for_loop 1 (?H - 1) (\<lambda>i. col_loop (?V i) ?W ?C i) (h (img_data output)) ! k"
    unfolding gaussian_blur_filter_def Let_def
    by (simp add: copy_borders_interior [OF assms(2,3,5-8)])
  then show ?thesis
    using interior_rows_nth [OF assms(3,2), of ?H ?V "h (img_data output)"] assms(4-8)
    by simp
qed

lemma gaussian_blur_filter_mpi_nth:
  assumes "0 < channels" "0 < width" "k < length band"
  shows "local_data (gaussian_blur_filter_mpi band halo_top halo_bottom local_height width
                       channels rank nprocs) ! k
         = (if k div channels div width < local_height \<and>
               \<not> skip_row local_height rank nprocs (k div channels div width) \<and>
               1 \<le> k div channels mod width \<and> k div channels mod width < width - 1
            then to_uchar (blur_sum_mpi band halo_top halo_bottom local_height width channels
                             (k div channels div width) (k div channels mod width)
                             (k mod channels))
            else band ! k)"
  unfolding gaussian_blur_filter_mpi_rows
  using stencil_rows_nth [OF assms(1,2), of "skip_row local_height rank nprocs" _ local_height band]
        assms(3)
  by simp

lemma sobel_edge_filter_mpi_nth:
  assumes "0 < channels" "0 < width" "k < length band"
  shows "local_data (sobel_edge_filter_mpi band halo_top halo_bottom local_height width
                       channels rank nprocs) ! k
         = (if k div channels div width < local_height \<and>
               \<not> skip_row local_height rank nprocs (k div channels div width) \<and>
               1 \<le> k div channels mod width \<and> k div channels mod width < width - 1
            then edge_value_of (sobel_sums_mpi band halo_top halo_bottom local_height width
                                  channels (k div channels div width) (k div channels mod width))
            else band ! k)"
  unfolding sobel_edge_filter_mpi_rows
  using stencil_rows_nth [OF assms(1,2), of "skip_row local_height rank nprocs" _ local_height band]
        assms(3)
  by simp

text \<open>
  Claim C9.  In the shared-memory program a pass of any of the four filters changes no
  buffer but the output buffer, so the input buffer (another buffer than the output, as in
  \<open>main\<close>) is the same before and after the pass, and every byte that a stencil filter
  computes is the stencil of the input buffer as it was at entry.  In the distributed
  program the stencil filters write to \<open>local_data\<close>: the pass leaves the copy \<open>temp\<close>
  as it was at entry, and every byte of the result is either the stencil of the band as it
  was at entry (and of the halo rows) or the byte of the band at entry, never a stencil of
  bytes that the pass has written.  The pointwise filters read no neighbour and give the
  band that the shared-memory filter writes into a separate output buffer when it reads a
  copy of the band.
\<close>

theorem filters_leave_input:
  assumes "p \<noteq> img_data output"
      and "img_data input \<noteq> img_data output"
      and "hc (img_data input) = band" "hc (img_data output) = band"
      and "img_height input = local_height" "img_width input = width"
          "img_channels input = channels"
      and "length band = local_height * width * channels"
      and "0 < width" "0 < channels"
  shows "grayscale_filter input output thread_count h p = h p \<and>
         gaussian_blur_filter input output thread_count h p = h p \<and>
         sobel_edge_filter input output thread_count h p = h p \<and>
         brightness_filter input output brightness thread_count h p = h p \<and>
         (\<forall>k<length (h (img_data output)).
            1 \<le> k div channels div width \<and> k div channels div width < local_height - 1 \<and>
            1 \<le> k div channels mod width \<and> k div channels mod width < width - 1 \<longrightarrow>
            gaussian_blur_filter input output thread_count h (img_data output) ! k
            = to_uchar (blur_sum (h (img_data input)) width channels
                          (k div channels div width) (k div channels mod width)
                          (k mod channels))) \<and>
         (\<forall>k<length (h (img_data output)).
            sobel_edge_filter input output thread_count h (img_data output) ! k
            = (if 1 \<le> k div channels div width \<and> k div channels div width < local_height - 1 \<and>
                  1 \<le> k div channels mod width \<and> k div channels mod width < width - 1
               then edge_value_of (sobel_sums (h (img_data input)) width channels
                                     (k div channels div width) (k div channels mod width))
               else h (img_data output) ! k)) \<and>
         temp (gaussian_blur_filter_mpi band halo_top halo_bottom local_height width channels
                 rank nprocs) = band \<and>
         temp (sobel_edge_filter_mpi band halo_top halo_bottom local_height width channels
                 rank nprocs) = band \<and>
         (\<forall>k<length band.
            local_data (gaussian_blur_filter_mpi band halo_top halo_bottom local_height width
                          channels rank nprocs) ! k
            = (if \<not> skip_row local_height rank nprocs (k div channels div width) \<and>
                  1 \<le> k div channels mod width \<and> k div channels mod width < width - 1
               then to_uchar (blur_sum_mpi band halo_top halo_bottom local_height width channels
                                (k div channels div width) (k div channels mod width)
                                (k mod channels))
               else band ! k)) \<and>
         (\<forall>k<length band.
            local_data (sobel_edge_filter_mpi band halo_top halo_bottom local_height width
                          channels rank nprocs) ! k
            = (if \<not> skip_row local_height rank nprocs (k div channels div width) \<and>
                  1 \<le> k div channels mod width \<and> k div channels mod width < width - 1
               then edge_value_of (sobel_sums_mpi band halo_top halo_bottom local_height width
                                     channels (k div channels div width)
                                     (k div channels mod width))
               else band ! k)) \<and>
         grayscale_filter_mpi band local_height width channels
           = grayscale_filter input output thread_count hc (img_data output) \<and>
         brightness_filter_mpi band local_height width channels brightness
           = brightness_filter input output brightness thread_count hc (img_data output)"
proof -
  have W: "0 < img_width input" and C: "0 < img_channels input"
    using assms(6,7,9,10) by simp_all
  have row: "k div channels div width < local_height" if "k < length band" for k
  proof -
    have "k div channels < local_height * width"
      using that assms(8,10) by (simp add: less_mult_imp_div_less)
    then show ?thesis using assms(9) by (simp add: less_mult_imp_div_less)
  qed
  show ?thesis
  proof (intro conjI allI impI)
    show "grayscale_filter input output thread_count h p = h p"
      by (rule grayscale_filter_frame [OF assms(1)])
    show "gaussian_blur_filter input output thread_count h p = h p"
      by (rule gaussian_blur_filter_frame [OF assms(1)])
    show "sobel_edge_filter input output thread_count h p = h p"
      by (rule sobel_edge_filter_frame [OF assms(1)])
    show "brightness_filter input output brightness thread_count h p = h p"
      by (rule brightness_filter_frame [OF assms(1)])
    show "temp (gaussian_blur_filter_mpi band halo_top halo_bottom local_height width channels
                  rank nprocs) = band"
      by (rule gaussian_blur_filter_mpi_temp)
    show "temp (sobel_edge_filter_mpi band halo_top halo_bottom local_height width channels
                  rank nprocs) = band"
      by (rule sobel_edge_filter_mpi_temp)
    show "grayscale_filter_mpi band local_height width channels
          = grayscale_filter input output thread_count hc (img_data output)"
      by (rule grayscale_in_place [of input "output" hc, OF assms(2-8)])
    show "brightness_filter_mpi band local_height width channels brightness
          = brightness_filter input output brightness thread_count hc (img_data output)"
      by (rule brightness_in_place [of input "output" hc, OF assms(2-8)])
  next
    fix k
    assume k: "k < length (h (img_data output))"
      and i: "1 \<le> k div channels div width \<and> k div channels div width < local_height - 1 \<and>
              1 \<le> k div channels mod width \<and> k div channels mod width < width - 1"
    show "gaussian_blur_filter input output thread_count h (img_data output) ! k
          = to_uchar (blur_sum (h (img_data input)) width channels
                        (k div channels div width) (k div channels mod width) (k mod channels))"
      using gaussian_blur_filter_nth [of input "output" k h thread_count, OF assms(2) W C k] i
      unfolding assms(5-7) by simp
  next
    fix k
    assume k: "k < length (h (img_data output))"
    show "sobel_edge_filter input output thread_count h (img_data output) ! k
          = (if 1 \<le> k div channels div width \<and> k div channels div width < local_height - 1 \<and>
                1 \<le> k div channels mod width \<and> k div channels mod width < width - 1
             then edge_value_of (sobel_sums (h (img_data input)) width channels
                                   (k div channels div width) (k div channels mod width))
             else h (img_data output) ! k)"
      using sobel_edge_filter_nth [of input "output" k h thread_count, OF assms(2) W C k]
      unfolding assms(5-7) .
  next
    fix k
    assume k: "k < length band"
    show "local_data (gaussian_blur_filter_mpi band halo_top halo_bottom local_height width
                        channels rank nprocs) ! k
          = (if \<not> skip_row local_height rank nprocs (k div channels div width) \<and>
                1 \<le> k div channels mod width \<and> k div channels mod width < width - 1
             then to_uchar (blur_sum_mpi band halo_top halo_bottom local_height width channels
                              (k div channels div width) (k div channels mod width)
                              (k mod channels))
             else band ! k)"
      using row [OF k] by (simp add: gaussian_blur_filter_mpi_nth [OF assms(10,9) k])
  next
    fix k
    assume k: "k < length band"
    show "local_data (sobel_edge_filter_mpi band halo_top halo_bottom local_height width
                        channels rank nprocs) ! k
          = (if \<not> skip_row local_height rank nprocs (k div channels div width) \<and>
                1 \<le> k div channels mod width \<and> k div channels mod width < width - 1
             then edge_value_of (sobel_sums_mpi band halo_top halo_bottom local_height width
                                   channels (k div channels div width)
                                   (k div channels mod width))
             else band ! k)"
      using row [OF k] by (simp add: sobel_edge_filter_mpi_nth [OF assms(10,9) k])
  qed
qed

text \<open>
  An image of three rows of four one-byte pixels, all 0 but the pixel 160 in row 1,
  column 1.  Its right neighbour in row 1, column 2, is computed after it: the blur gives
  40 and then 20 = 160 * 2 / 16 (it would give 40 * 2 / 16 = 5 from the byte just
  written), the edge filter gives 0 and then 255 (it would give 0).  \<open>stencil_heap\<close>
  holds the image in the input buffer and zeros in the output buffer, as in \<open>main\<close>;
  \<open>stencil_copy\<close> holds a copy of the image in the output buffer.
\<close>

definition stencil_band :: "byte list" where
  "stencil_band = [0, 0, 0, 0, 0, 160, 0, 0, 0, 0, 0, 0]"

definition stencil_input :: Image where
  "stencil_input = \<lparr>img_data = 0, img_width = 4, img_height = 3, img_channels = 1\<rparr>"

definition stencil_output :: Image where
  "stencil_output = \<lparr>img_data = 1, img_width = 4, img_height = 3, img_channels = 1\<rparr>"

definition stencil_heap :: heap where
  "stencil_heap = (\<lambda>_. [])(0 := stencil_band, 1 := replicate 12 0)"

definition stencil_copy :: heap where
  "stencil_copy = (\<lambda>_. [])(0 := stencil_band, 1 := stencil_band)"

lemma stencil_band_blur:
  "to_uchar (blur_sum stencil_band 4 1 1 1 0) = 40"
  "to_uchar (blur_sum stencil_band 4 1 1 2 0) = 20"
  by (simp add: blur_sum_def offsets3_def Let_def stencil_band_def, code_simp)+

lemma stencil_band_blur_mpi:
  "to_uchar (blur_sum_mpi stencil_band [0, 0, 0, 0] [0, 0, 0, 0] 3 4 1 1 1 0) = 40"
  "to_uchar (blur_sum_mpi stencil_band [0, 0, 0, 0] [0, 0, 0, 0] 3 4 1 1 2 0) = 20"
  by (simp add: blur_sum_mpi_def neighbour_byte_def offsets3_def Let_def stencil_band_def,
      code_simp)+

lemma stencil_band_edge:
  "edge_value_of (sobel_sums stencil_band 4 1 1 1) = 0"
  "edge_value_of (sobel_sums stencil_band 4 1 1 2) = 255"
  by (simp add: sobel_sums_def offsets3_def Let_def stencil_band_def, code_simp)+

lemma stencil_band_edge_mpi:
  "edge_value_of (sobel_sums_mpi stencil_band [0, 0, 0, 0] [0, 0, 0, 0] 3 4 1 1 1) = 0"
  "edge_value_of (sobel_sums_mpi stencil_band [0, 0, 0, 0] [0, 0, 0, 0] 3 4 1 1 2) = 255"
  by (simp add: sobel_sums_mpi_def neighbour_byte_def offsets3_def Let_def stencil_band_def,
      code_simp)+

theorem filters_leave_input_witness:
  "grayscale_filter stencil_input stencil_output 4 stencil_heap (img_data stencil_input)
     = stencil_band \<and>
   gaussian_blur_filter stencil_input stencil_output 4 stencil_heap (img_data stencil_input)
     = stencil_band \<and>
   sobel_edge_filter stencil_input stencil_output 4 stencil_heap (img_data stencil_input)
     = stencil_band \<and>
   brightness_filter stencil_input stencil_output 50 4 stencil_heap (img_data stencil_input)
     = stencil_band \<and>
   gaussian_blur_filter stencil_input stencil_output 4 stencil_heap (img_data stencil_output) ! 5
     = 40 \<and>
   gaussian_blur_filter stencil_input stencil_output 4 stencil_heap (img_data stencil_output) ! 6
     = 20 \<and>
   sobel_edge_filter stencil_input stencil_output 4 stencil_heap (img_data stencil_output) ! 5
     = 0 \<and>
   sobel_edge_filter stencil_input stencil_output 4 stencil_heap (img_data stencil_output) ! 6
     = 255 \<and>
   temp (gaussian_blur_filter_mpi stencil_band [0, 0, 0, 0] [0, 0, 0, 0] 3 4 1 0 1)
     = stencil_band \<and>
   temp (sobel_edge_filter_mpi stencil_band [0, 0, 0, 0] [0, 0, 0, 0] 3 4 1 0 1)
     = stencil_band \<and>
   local_data (gaussian_blur_filter_mpi stencil_band [0, 0, 0, 0] [0, 0, 0, 0] 3 4 1 0 1) ! 5
     = 40 \<and>
   local_data (gaussian_blur_filter_mpi stencil_band [0, 0, 0, 0] [0, 0, 0, 0] 3 4 1 0 1) ! 6
     = 20 \<and>
   local_data (sobel_edge_filter_mpi stencil_band [0, 0, 0, 0] [0, 0, 0, 0] 3 4 1 0 1) ! 5
     = 0 \<and>
   local_data (sobel_edge_filter_mpi stencil_band [0, 0, 0, 0] [0, 0, 0, 0] 3 4 1 0 1) ! 6
     = 255 \<and>
   grayscale_filter_mpi stencil_band 3 4 1
     = grayscale_filter stencil_input stencil_output 4 stencil_copy (img_data stencil_output) \<and>
   brightness_filter_mpi stencil_band 3 4 1 50
     = brightness_filter stencil_input stencil_output 50 4 stencil_copy (img_data stencil_output)"
proof -
  have a: "img_data stencil_input \<noteq> img_data stencil_output"
    by (simp add: stencil_input_def stencil_output_def)
  have b: "stencil_copy (img_data stencil_input) = stencil_band"
    "stencil_copy (img_data stencil_output) = stencil_band"
    by (simp_all add: stencil_copy_def stencil_input_def stencil_output_def)
  have c: "img_height stencil_input = 3" "img_width stencil_input = 4"
    "img_channels stencil_input = 1"
    by (simp_all add: stencil_input_def)
  have d: "length stencil_band = 3 * 4 * 1" by (simp add: stencil_band_def)
  have e: "(0::nat) < 4" "(0::nat) < 1" by simp_all
  have v: "stencil_heap (img_data stencil_input) = stencil_band"
    by (simp add: stencil_heap_def stencil_input_def)
  have o: "length (stencil_heap (img_data stencil_output)) = 12"
    by (simp add: stencil_heap_def stencil_output_def)
  have l: "length stencil_band = 12" by (simp add: stencil_band_def)
  have k: "(5::nat) div 1 div 4 = 1" "(5::nat) div 1 mod 4 = 1" "(5::nat) mod 1 = 0"
    "(6::nat) div 1 div 4 = 1" "(6::nat) div 1 mod 4 = 2" "(6::nat) mod 1 = 0"
    by simp_all
  have s: "\<not> skip_row 3 0 1 1" by (simp add: skip_row_def)
  note t = filters_leave_input [of "img_data stencil_input" stencil_output stencil_input
      stencil_copy stencil_band 3 4 1 4 stencil_heap 50 "[0, 0, 0, 0]" "[0, 0, 0, 0]" 0 1,
      OF a a b c d e, unfolded v o l]
  note t1 = t [THEN conjunct1]
  note t2 = t [THEN conjunct2, THEN conjunct1]
  note t3 = t [THEN conjunct2, THEN conjunct2, THEN conjunct1]
  note t4 = t [THEN conjunct2, THEN conjunct2, THEN conjunct2, THEN conjunct1]
  note r4 = t [THEN conjunct2, THEN conjunct2, THEN conjunct2, THEN conjunct2]
  note t5 = r4 [THEN conjunct1, rule_format]
  note t6 = r4 [THEN conjunct2, THEN conjunct1, rule_format]
  note t7 = r4 [THEN conjunct2, THEN conjunct2, THEN conjunct1]
  note t8 = r4 [THEN conjunct2, THEN conjunct2, THEN conjunct2, THEN conjunct1]
  note r8 = r4 [THEN conjunct2, THEN conjunct2, THEN conjunct2, THEN conjunct2]
  note t9 = r8 [THEN conjunct1, rule_format]
  note t10 = r8 [THEN conjunct2, THEN conjunct1, rule_format]
  note t11 = r8 [THEN conjunct2, THEN conjunct2, THEN conjunct1]
  note t12 = r8 [THEN conjunct2, THEN conjunct2, THEN conjunct2]
  have b5: "gaussian_blur_filter stencil_input stencil_output 4 stencil_heap
              (img_data stencil_output) ! 5 = 40"
    using t5 [of 5] unfolding k stencil_band_blur by simp
  have b6: "gaussian_blur_filter stencil_input stencil_output 4 stencil_heap
              (img_data stencil_output) ! 6 = 20"
    using t5 [of 6] unfolding k stencil_band_blur by simp
  have e5: "sobel_edge_filter stencil_input stencil_output 4 stencil_heap
              (img_data stencil_output) ! 5 = 0"
    using t6 [of 5] unfolding k stencil_band_edge by simp
  have e6: "sobel_edge_filter stencil_input stencil_output 4 stencil_heap
              (img_data stencil_output) ! 6 = 255"
    using t6 [of 6] unfolding k stencil_band_edge by simp
  have m5: "local_data (gaussian_blur_filter_mpi stencil_band [0, 0, 0, 0] [0, 0, 0, 0]
              3 4 1 0 1) ! 5 = 40"
    using t9 [of 5] s unfolding k stencil_band_blur_mpi by simp
  have m6: "local_data (gaussian_blur_filter_mpi stencil_band [0, 0, 0, 0] [0, 0, 0, 0]
              3 4 1 0 1) ! 6 = 20"
    using t9 [of 6] s unfolding k stencil_band_blur_mpi by simp
  have n5: "local_data (sobel_edge_filter_mpi stencil_band [0, 0, 0, 0] [0, 0, 0, 0]
              3 4 1 0 1) ! 5 = 0"
    using t10 [of 5] s unfolding k stencil_band_edge_mpi by simp
  have n6: "local_data (sobel_edge_filter_mpi stencil_band [0, 0, 0, 0] [0, 0, 0, 0]
              3 4 1 0 1) ! 6 = 255"
    using t10 [of 6] s unfolding k stencil_band_edge_mpi by simp
  show ?thesis
    by (intro conjI) (rule t1 t2 t3 t4 b5 b6 e5 e6 t7 t8 m5 m6 n5 n6 t11 t12)+
qed

end
